theory Spec2Isabelle
  imports Complex_Main "HOL-Library.Word"
begin

unbundle bit_operations_syntax

section \<open>JavaScript numbers\<close>

text \<open>
  The audio utilities compute with JavaScript numbers (IEEE 754 binary64) and keep
  samples in a \<open>Float32Array\<close> (binary32). A finite number is modelled by the real it
  denotes; every arithmetic operator is the exact operation followed by rounding to the
  nearest binary64 value, ties to even, and every store into a \<open>Float32Array\<close> rounds
  to the nearest binary32 value. \<open>NaN\<close>, the infinities and the sign of zero are not
  represented: the model covers finite samples and finite intermediate results.
\<close>

definition pow2 :: "int \<Rightarrow> real" where
  "pow2 e = (if 0 \<le> e then 2 ^ nat e else 1 / 2 ^ nat (- e))"

text \<open>Round to the nearest integer, ties to the even one.\<close>

definition rne :: "real \<Rightarrow> int" where
  "rne x = (let f = \<lfloor>x\<rfloor>; d = x - of_int f in
     if d < 1 / 2 then f else if 1 / 2 < d then f + 1 else if even f then f else f + 1)"

text \<open>
  The binary exponent of a positive number, searched from \<open>1\<close> upwards or downwards.
  The search stops at the largest and at the smallest exponent of the format, so that a
  number below the normal range keeps the smallest exponent (it is subnormal).
\<close>

fun expo_up :: "nat \<Rightarrow> real \<Rightarrow> int" where
  "expo_up 0 x = 0"
| "expo_up (Suc n) x = (if 2 \<le> x then expo_up n (x / 2) + 1 else 0)"

fun expo_down :: "nat \<Rightarrow> real \<Rightarrow> int" where
  "expo_down 0 x = 0"
| "expo_down (Suc n) x = (if x < 1 then expo_down n (x * 2) - 1 else 0)"

definition expo :: "nat \<Rightarrow> nat \<Rightarrow> real \<Rightarrow> int" where
  "expo emax emin a = (if 1 \<le> a then expo_up emax a else expo_down emin a)"

text \<open>
  \<open>round_to p emax emin x\<close>: the nearest multiple of the unit in the last place of
  \<open>x\<close>, for a significand of \<open>p\<close> fraction bits.
\<close>

definition round_to :: "nat \<Rightarrow> nat \<Rightarrow> nat \<Rightarrow> real \<Rightarrow> real" where
  "round_to p emax emin x =
     (let a = \<bar>x\<bar>; u = pow2 (expo emax emin a - int p)
      in sgn x * (of_int (rne (a / u)) * u))"

definition rd64 :: "real \<Rightarrow> real" where
  "rd64 = round_to 52 1023 1022"

text \<open>\<open>Math.fround\<close>, the conversion applied by a store into a \<open>Float32Array\<close>.\<close>

definition fround :: "real \<Rightarrow> real" where
  "fround = round_to 23 127 126"

definition fadd :: "real \<Rightarrow> real \<Rightarrow> real" where
  "fadd a b = rd64 (a + b)"

definition fsub :: "real \<Rightarrow> real \<Rightarrow> real" where
  "fsub a b = rd64 (a - b)"

definition fmul :: "real \<Rightarrow> real \<Rightarrow> real" where
  "fmul a b = rd64 (a * b)"

definition fdiv :: "real \<Rightarrow> real \<Rightarrow> real" where
  "fdiv a b = rd64 (a / b)"

text \<open>
  \<open>Math.sqrt\<close> and \<open>Math.tanh\<close>, taken as correctly rounded. \<open>Math.floor\<close> and
  \<open>Math.round\<close> are exact; \<open>Math.round\<close> rounds a tie upwards.
\<close>

definition Math_sqrt :: "real \<Rightarrow> real" where
  "Math_sqrt x = rd64 (sqrt x)"

definition Math_tanh :: "real \<Rightarrow> real" where
  "Math_tanh x = rd64 (tanh x)"

definition Math_floor :: "real \<Rightarrow> int" where
  "Math_floor x = \<lfloor>x\<rfloor>"

definition Math_round :: "real \<Rightarrow> int" where
  "Math_round x = \<lfloor>x + 1 / 2\<rfloor>"

text \<open>The contents of a \<open>Float32Array\<close>: binary32 values, and a length that is a safe integer.\<close>

definition is_float32 :: "real \<Rightarrow> bool" where
  "is_float32 x \<longleftrightarrow> fround x = x \<and> \<bar>x\<bar> < 2 ^ 128"

definition float32_array :: "real list \<Rightarrow> bool" where
  "float32_array xs \<longleftrightarrow> length xs < 2 ^ 53 \<and> list_all is_float32 xs"

section \<open>Errors and logging\<close>

text \<open>
  Every \<open>throw\<close> of the module is a constructor: the five \<open>Error\<close> messages of
  \<open>normalizeAudio\<close>, \<open>upsampleAudio\<close> and \<open>createAudioBlob\<close>, the \<open>RangeError\<close> of
  a typed-array constructor given a negative or infinite length, and an exception raised
  inside a logging call.
\<close>

datatype error =
    EmptyNormalize
  | EmptyUpsample
  | EmptyBlob
  | InvalidSampleRate
  | InvalidHeader
  | RangeError
  | LoggerError string

datatype log_level = DEBUG | INFO | WARN | ERROR

text \<open>
  The statistics gathered by \<open>validateAudioData\<close>. \<open>smin\<close> and \<open>smax\<close> are \<open>None\<close>
  while they still hold their initial \<open>Infinity\<close> and \<open>-Infinity\<close>. The two percentages
  of the log record are derived from \<open>zeros\<close>, \<open>clipped\<close> and \<open>slength\<close> and are left out.
\<close>

record audio_stats =
  slength :: nat
  smin :: "real option"
  smax :: "real option"
  zeros :: nat
  clipped :: nat

text \<open>
  The \<open>logger\<close> object is imported from another module and is a parameter of the
  model: a call with level, category, message and the statistics it carries (if any)
  either returns (\<open>None\<close>) or throws (\<open>Some e\<close>), so that a failing logging call is a
  case of the model.
\<close>

type_synonym logger = "log_level \<Rightarrow> string \<Rightarrow> string \<Rightarrow> audio_stats option \<Rightarrow> error option"

definition never_throws :: "logger \<Rightarrow> bool" where
  "never_throws lg \<longleftrightarrow> (\<forall>l c m d. lg l c m d = None)"

definition silent_logger :: logger where
  "silent_logger l c m d = None"

text \<open>Statement sequencing: a call that throws ends the function with that exception.\<close>

definition after :: "error option \<Rightarrow> error + 'a \<Rightarrow> error + 'a" where
  "after r k = (case r of None \<Rightarrow> k | Some e \<Rightarrow> Inl e)"

definition and_then :: "error + 'a \<Rightarrow> ('a \<Rightarrow> error + 'b) \<Rightarrow> error + 'b" where
  "and_then r k = (case r of Inl e \<Rightarrow> Inl e | Inr v \<Rightarrow> k v)"

text \<open>
  \<open>ttsDebugger.log(stage, success, data, error)\<close> forwards to \<open>logger.debug\<close> or
  \<open>logger.error\<close> under the category \<open>tts\<close>; its own bounded list of entries does not
  influence any result and is not kept.
\<close>

definition ttsDebugger_log :: "logger \<Rightarrow> string \<Rightarrow> bool \<Rightarrow> error option" where
  "ttsDebugger_log lg stage success =
     (if success then lg DEBUG ''tts'' (stage @ '': SUCCESS'') None
      else lg ERROR ''tts'' (stage @ '': FAILED'') None)"

definition stats_step :: "real \<Rightarrow> audio_stats \<Rightarrow> audio_stats" where
  "stats_step sample s =
     s\<lparr> smin := (case smin s of None \<Rightarrow> Some sample
                  | Some m \<Rightarrow> if sample < m then Some sample else Some m),
        smax := (case smax s of None \<Rightarrow> Some sample
                  | Some m \<Rightarrow> if m < sample then Some sample else Some m),
        zeros := (if sample = 0 then zeros s + 1 else zeros s),
        clipped := (if 1 \<le> \<bar>sample\<bar> then clipped s + 1 else clipped s) \<rparr>"

definition audio_statistics :: "real list \<Rightarrow> audio_stats" where
  "audio_statistics audioData =
     fold stats_step audioData
       \<lparr> slength = length audioData, smin = None, smax = None, zeros = 0, clipped = 0 \<rparr>"

definition validateAudioData :: "logger \<Rightarrow> real list \<Rightarrow> string \<Rightarrow> error option" where
  "validateAudioData lg audioData stage =
     lg DEBUG ''audio-validation'' (''Audio data at '' @ stage)
        (Some (audio_statistics audioData))"

section \<open>Loudness normalisation\<close>

text \<open>The literals \<open>0.15\<close> and \<open>0.9\<close> denote the nearest binary64 values.\<close>

definition default_targetRMS :: real where
  "default_targetRMS = rd64 (15 / 100)"

definition limiter_prescale :: real where
  "limiter_prescale = rd64 (9 / 10)"

definition sumSquares :: "real list \<Rightarrow> real" where
  "sumSquares audioData = fold (\<lambda>x s. fadd s (fmul x x)) audioData 0"

definition rms_of :: "real list \<Rightarrow> real" where
  "rms_of audioData = Math_sqrt (fdiv (sumSquares audioData) (real (length audioData)))"

definition soft_limit :: "real \<Rightarrow> real \<Rightarrow> real" where
  "soft_limit scaleFactor x =
     (let scaled = fmul x scaleFactor in fround (Math_tanh (fmul scaled limiter_prescale)))"

definition normalizeAudio :: "logger \<Rightarrow> real list \<Rightarrow> real \<Rightarrow> error + real list" where
  "normalizeAudio lg audioData targetRMS =
     after (lg DEBUG ''audio-utils'' ''Starting RMS normalization'' None)
    (after (validateAudioData lg audioData ''pre-normalization'')
    (if audioData = [] then
       after (lg ERROR ''audio-utils'' ''Cannot normalize empty audio data'' None)
         (Inl EmptyNormalize)
     else
       let rms = rms_of audioData in
       if rms = 0 then
         after (lg WARN ''audio-utils'' ''Audio is completely silent (RMS = 0)'' None)
           (Inr audioData)
       else
         let scaleFactor = fdiv targetRMS rms;
             normalizedAudio = map (soft_limit scaleFactor) audioData
         in after (validateAudioData lg normalizedAudio ''post-normalization'')
           (after (lg DEBUG ''audio-utils'' ''RMS normalization complete'' None)
             (Inr normalizedAudio))))"

section \<open>Sample-rate conversion\<close>

text \<open>\<open>audioData[k] || 0\<close>: a read outside the array is \<open>undefined\<close> and becomes \<open>0\<close>.\<close>

definition sample_or_0 :: "real list \<Rightarrow> int \<Rightarrow> real" where
  "sample_or_0 audioData k =
     (if 0 \<le> k \<and> k < int (length audioData) then audioData ! nat k else 0)"

definition upsample_ratio :: "real \<Rightarrow> real \<Rightarrow> real" where
  "upsample_ratio inputSampleRate outputSampleRate = fdiv outputSampleRate inputSampleRate"

definition outputLength :: "nat \<Rightarrow> real \<Rightarrow> int" where
  "outputLength n ratio = Math_floor (fmul (real n) ratio)"

definition sourceIndex :: "real \<Rightarrow> nat \<Rightarrow> real" where
  "sourceIndex ratio i = fdiv (real i) ratio"

definition fraction_of :: "real \<Rightarrow> nat \<Rightarrow> real" where
  "fraction_of ratio i =
     fsub (sourceIndex ratio i) (of_int (Math_floor (sourceIndex ratio i)))"

definition catmull_rom :: "real \<Rightarrow> real \<Rightarrow> real \<Rightarrow> real \<Rightarrow> real \<Rightarrow> real" where
  "catmull_rom y0 y1 y2 y3 fraction =
     (let a0 = fadd (fsub (fadd (fmul (- (1 / 2)) y0) (fmul (3 / 2) y1)) (fmul (3 / 2) y2))
                 (fmul (1 / 2) y3);
          a1 = fsub (fadd (fsub y0 (fmul (5 / 2) y1)) (fmul 2 y2)) (fmul (1 / 2) y3);
          a2 = fadd (fmul (- (1 / 2)) y0) (fmul (1 / 2) y2);
          a3 = y1
      in fadd (fadd (fadd (fmul (fmul (fmul a0 fraction) fraction) fraction)
                          (fmul (fmul a1 fraction) fraction))
                    (fmul a2 fraction))
              a3)"

definition interpolate :: "real list \<Rightarrow> real \<Rightarrow> nat \<Rightarrow> real" where
  "interpolate audioData ratio i =
     (let index = Math_floor (sourceIndex ratio i);
          fraction = fraction_of ratio i;
          last = int (length audioData) - 1;
          y0 = sample_or_0 audioData (max 0 (index - 1));
          y1 = sample_or_0 audioData index;
          y2 = sample_or_0 audioData (min (index + 1) last);
          y3 = sample_or_0 audioData (min (index + 2) last)
      in fround (catmull_rom y0 y1 y2 y3 fraction))"

text \<open>
  A zero input rate with a non-zero output rate makes the ratio infinite, and a negative
  ratio makes the length negative: \<open>new Float32Array\<close> then throws a \<open>RangeError\<close>.
\<close>

definition upsampleAudio :: "logger \<Rightarrow> real list \<Rightarrow> real \<Rightarrow> real \<Rightarrow> error + real list" where
  "upsampleAudio lg audioData inputSampleRate outputSampleRate =
     after (ttsDebugger_log lg ''upsample-audio-start'' True)
    (after (validateAudioData lg audioData ''pre-upsampling'')
    (if audioData = [] then
       after (ttsDebugger_log lg ''upsample-audio'' False) (Inl EmptyUpsample)
     else
       let ratio = upsample_ratio inputSampleRate outputSampleRate;
           len = outputLength (length audioData) ratio
       in if (inputSampleRate = 0 \<and> outputSampleRate \<noteq> 0) \<or> len < 0 then Inl RangeError
          else
            let upsampledAudio = map (interpolate audioData ratio) [0 ..< nat len]
            in after (validateAudioData lg upsampledAudio ''post-upsampling'')
              (after (ttsDebugger_log lg ''upsample-audio-complete'' True)
                (Inr upsampledAudio))))"

section \<open>The container encoder\<close>

text \<open>
  An \<open>ArrayBuffer\<close> seen through a \<open>DataView\<close> is a list of bytes. All multi-byte
  accesses of the module are little-endian. The setters convert their argument to the
  width of the field (modulo \<open>2 ^ 32\<close> or \<open>2 ^ 16\<close>), which is what the word types do.
  Every offset the encoder uses lies inside the buffer it has allocated, so the
  \<open>RangeError\<close> of an access outside the buffer has no branch here.
\<close>

type_synonym byte = "8 word"

definition setUint8 :: "byte list \<Rightarrow> nat \<Rightarrow> byte \<Rightarrow> byte list" where
  "setUint8 view offset b = view[offset := b]"

definition getUint8 :: "byte list \<Rightarrow> nat \<Rightarrow> byte" where
  "getUint8 view offset = view ! offset"

definition setUint16 :: "byte list \<Rightarrow> nat \<Rightarrow> 16 word \<Rightarrow> byte list" where
  "setUint16 view offset w = view[offset := ucast w, offset + 1 := ucast (drop_bit 8 w)]"

definition getUint16 :: "byte list \<Rightarrow> nat \<Rightarrow> 16 word" where
  "getUint16 view offset =
     ucast (view ! offset) OR push_bit 8 (ucast (view ! (offset + 1)))"

definition setUint32 :: "byte list \<Rightarrow> nat \<Rightarrow> 32 word \<Rightarrow> byte list" where
  "setUint32 view offset w =
     view[offset := ucast w, offset + 1 := ucast (drop_bit 8 w),
          offset + 2 := ucast (drop_bit 16 w), offset + 3 := ucast (drop_bit 24 w)]"

definition getUint32 :: "byte list \<Rightarrow> nat \<Rightarrow> 32 word" where
  "getUint32 view offset =
     ucast (view ! offset) OR push_bit 8 (ucast (view ! (offset + 1)))
       OR push_bit 16 (ucast (view ! (offset + 2)))
       OR push_bit 24 (ucast (view ! (offset + 3)))"

text \<open>\<open>setInt16\<close> stores the two's complement of an integer.\<close>

definition setInt16 :: "byte list \<Rightarrow> nat \<Rightarrow> int \<Rightarrow> byte list" where
  "setInt16 view offset v = setUint16 view offset (word_of_int v)"

fun writeString :: "byte list \<Rightarrow> nat \<Rightarrow> string \<Rightarrow> byte list" where
  "writeString view offset [] = view"
| "writeString view offset (c # cs) =
     writeString (setUint8 view offset (of_nat (of_char c))) (offset + 1) cs"

text \<open>\<open>String.fromCharCode\<close> of four bytes read back from the view.\<close>

definition readMarker :: "byte list \<Rightarrow> nat \<Rightarrow> string" where
  "readMarker view offset =
     map (\<lambda>i. char_of (unat (getUint8 view (offset + i)))) [0, 1, 2, 3]"

text \<open>The header writes of \<open>createAudioBlob\<close>, in the order of the source.\<close>

definition processedSampleRate :: nat where
  "processedSampleRate = 48000"

definition writeHeader :: "byte list \<Rightarrow> nat \<Rightarrow> byte list" where
  "writeHeader view0 len =
     (let view = writeString view0 0 ''RIFF'';
          view = setUint32 view 4 (of_nat (36 + len * 2));
          view = writeString view 8 ''WAVE'';
          view = writeString view 12 ''fmt '';
          view = setUint32 view 16 16;
          view = setUint16 view 20 1;
          view = setUint16 view 22 1;
          view = setUint32 view 24 (of_nat processedSampleRate);
          view = setUint32 view 28 (of_nat (processedSampleRate * 2));
          view = setUint16 view 32 2;
          view = setUint16 view 34 16;
          view = writeString view 36 ''data''
      in setUint32 view 40 (of_nat (len * 2)))"

text \<open>The object \<open>headerValidation\<close>: what the encoder reads back from the view.\<close>

record header_validation =
  riffMarker :: string
  fileSize :: "32 word"
  waveMarker :: string
  fmtMarker :: string
  audioFormat :: "16 word"
  numChannels :: "16 word"
  sampleRate :: "32 word"
  bitsPerSample :: "16 word"

definition headerValidation :: "byte list \<Rightarrow> header_validation" where
  "headerValidation view =
     \<lparr> riffMarker = readMarker view 0,
       fileSize = getUint32 view 4,
       waveMarker = readMarker view 8,
       fmtMarker = readMarker view 12,
       audioFormat = getUint16 view 20,
       numChannels = getUint16 view 22,
       sampleRate = getUint32 view 24,
       bitsPerSample = getUint16 view 34 \<rparr>"

text \<open>The condition under which the encoder throws \<open>Invalid WAV header construction\<close>.\<close>

definition header_rejected :: "header_validation \<Rightarrow> bool" where
  "header_rejected hv \<longleftrightarrow> riffMarker hv \<noteq> ''RIFF'' \<or> waveMarker hv \<noteq> ''WAVE''"

text \<open>
  Quantisation of one sample. The two words are the values that
  \<open>crypto.getRandomValues\<close> left in \<open>randomArray\<close> for this sample.
\<close>

definition quantize :: "32 word \<times> 32 word \<Rightarrow> real \<Rightarrow> int" where
  "quantize randomArray sample =
     (let clampedSample = max (- 1) (min 1 sample);
          scaled = fmul clampedSample 32767;
          dither = fmul (fsub (fdiv (real (unat (fst randomArray))) 4294967295)
                              (fdiv (real (unat (snd randomArray))) 4294967295)) (1 / 2);
          dithered = Math_round (fadd scaled dither)
      in max (- 32768) (min 32767 dithered))"

text \<open>The loop over the samples: sample \<open>i\<close> is stored at offset \<open>44 + 2 * i\<close>.\<close>

fun writeSamples ::
  "(nat \<Rightarrow> 32 word \<times> 32 word) \<Rightarrow> byte list \<Rightarrow> nat \<Rightarrow> nat \<Rightarrow> real list \<Rightarrow> byte list" where
  "writeSamples rng view offset i [] = view"
| "writeSamples rng view offset i (x # xs) =
     writeSamples rng (setInt16 view offset (quantize (rng i) x)) (offset + 2) (Suc i) xs"

record blob =
  blob_bytes :: "byte list"
  blob_type :: string

text \<open>
  The rest of the \<open>try\<close> block of \<open>createAudioBlob\<close>: the buffer, the header, the
  self-check, the samples and the \<open>Blob\<close>.
\<close>

definition encodeWav ::
  "logger \<Rightarrow> (nat \<Rightarrow> 32 word \<times> 32 word) \<Rightarrow> real list \<Rightarrow> error + blob" where
  "encodeWav lg rng upsampledAudio =
     (let len = length upsampledAudio;
          buffer = replicate (44 + len * 2) (0 :: byte);
          view = writeHeader buffer len;
          hv = headerValidation view
      in after (lg DEBUG ''audio-utils'' ''WAV header validation'' None)
        (if header_rejected hv then
           after (lg ERROR ''audio-utils'' ''Invalid WAV header markers'' None)
             (Inl InvalidHeader)
         else
           let view = writeSamples rng view 44 0 upsampledAudio
           in after (lg DEBUG ''audio-utils'' ''WAV PCM conversion complete'' None)
             (after (ttsDebugger_log lg ''createAudioBlob-complete'' True)
               (Inr \<lparr> blob_bytes = view, blob_type = ''audio/wav'' \<rparr>))))"

text \<open>The first two statements of the \<open>try\<close> block: normalise, then resample to 48000 Hz.\<close>

definition processedAudio :: "logger \<Rightarrow> real list \<Rightarrow> real \<Rightarrow> error + real list" where
  "processedAudio lg audioData sampleRate' =
     and_then (normalizeAudio lg audioData default_targetRMS) (\<lambda>normalizedAudio.
       upsampleAudio lg normalizedAudio sampleRate' (real processedSampleRate))"

text \<open>
  \<open>createAudioBlob\<close>: the two guards, then the body of the \<open>try\<close> block; the \<open>catch\<close>
  clause logs and throws the same exception again.
\<close>

definition createAudioBlob ::
  "logger \<Rightarrow> (nat \<Rightarrow> 32 word \<times> 32 word) \<Rightarrow> real list \<Rightarrow> real \<Rightarrow> error + blob" where
  "createAudioBlob lg rng audioData sampleRate' =
     after (ttsDebugger_log lg ''createAudioBlob-start'' True)
    (if audioData = [] then
       after (ttsDebugger_log lg ''createAudioBlob'' False) (Inl EmptyBlob)
     else if sampleRate' \<le> 0 then
       after (ttsDebugger_log lg ''createAudioBlob'' False) (Inl InvalidSampleRate)
     else
       (case
          and_then (processedAudio lg audioData sampleRate') (\<lambda>upsampledAudio.
            after (ttsDebugger_log lg ''audio-processing-complete'' True)
              (encodeWav lg rng upsampledAudio))
        of Inr b \<Rightarrow> Inr b
         | Inl e \<Rightarrow> after (ttsDebugger_log lg ''createAudioBlob'' False) (Inl e)))"

section \<open>Observations on the result\<close>

text \<open>The fields a reader of the container finds in its header, and the number of samples.\<close>

definition declared_file_size :: "blob \<Rightarrow> nat" where
  "declared_file_size b = unat (getUint32 (blob_bytes b) 4)"

definition declared_data_size :: "blob \<Rightarrow> nat" where
  "declared_data_size b = unat (getUint32 (blob_bytes b) 40)"

definition declared_sample_rate :: "blob \<Rightarrow> nat" where
  "declared_sample_rate b = unat (getUint32 (blob_bytes b) 24)"

definition declared_byte_rate :: "blob \<Rightarrow> nat" where
  "declared_byte_rate b = unat (getUint32 (blob_bytes b) 28)"

definition sample_count :: "blob \<Rightarrow> nat" where
  "sample_count b = (length (blob_bytes b) - 44) div 2"

text \<open>A random source whose words are all zero, and a logger whose statistics records throw.\<close>

definition no_dither :: "nat \<Rightarrow> 32 word \<times> 32 word" where
  "no_dither i = (0, 0)"

definition validation_throws :: logger where
  "validation_throws l c m d = (if c = ''audio-validation'' then Some (LoggerError m) else None)"

text \<open>
  A header in which the \<open>data\<close> marker and the bits-per-sample field have been
  overwritten with zeros.
\<close>

definition corrupted_header :: "byte list" where
  "corrupted_header = setUint16 (setUint8 (writeHeader (replicate 44 0) 0) 36 0) 34 0"

section \<open>Sequencing and logging lemmas\<close>

lemma after_None [simp]: "after None k = k"
  by (simp add: after_def)

lemma after_Some [simp]: "after (Some e) k = Inl e"
  by (simp add: after_def)

lemma never_throws_simps [simp]:
  assumes "never_throws lg"
  shows "lg l c m d = None" "ttsDebugger_log lg s b = None" "validateAudioData lg xs st = None"
  using assms by (simp_all add: never_throws_def ttsDebugger_log_def validateAudioData_def)

lemma never_throws_silent [simp]: "never_throws silent_logger"
  by (simp add: never_throws_def silent_logger_def)

section \<open>Powers of two and rounding to an integer\<close>

lemma pow2_powr: "pow2 e = 2 powr (real_of_int e)"
proof (cases "0 \<le> e")
  case True
  then obtain n where e: "e = int n" by (metis nonneg_int_cases)
  show ?thesis unfolding e by (simp add: pow2_def powr_realpow)
next
  case False
  then have "0 \<le> - e" by simp
  then obtain n where "- e = int n" by (metis nonneg_int_cases)
  then have e: "e = - int n" by simp
  have "2 powr (- real n) = 1 / 2 ^ n"
    by (simp add: powr_minus_divide powr_realpow)
  then show ?thesis using False unfolding e by (simp add: pow2_def)
qed

lemma pow2_pos [simp]: "0 < pow2 e"
  by (simp add: pow2_powr)

lemma pow2_nonneg [simp]: "0 \<le> pow2 e"
  by (simp add: pow2_powr)

lemma pow2_neq0 [simp]: "pow2 e \<noteq> 0"
  by (simp add: pow2_powr)

lemma pow2_add: "pow2 (a + b) = pow2 a * pow2 b"
  by (simp add: pow2_powr powr_add)

lemma pow2_diff: "pow2 (a - b) = pow2 a / pow2 b"
  by (simp add: pow2_powr powr_diff)

lemma pow2_0 [simp]: "pow2 0 = 1"
  by (simp add: pow2_def)

lemma pow2_1 [simp]: "pow2 1 = 2"
  by (simp add: pow2_def)

lemma pow2_Suc: "pow2 (e + 1) = 2 * pow2 e"
  by (simp add: pow2_add)

lemma pow2_pred: "pow2 (e - 1) = pow2 e / 2"
  by (simp add: pow2_diff)

lemma pow2_mono: "a \<le> b \<Longrightarrow> pow2 a \<le> pow2 b"
  by (simp add: pow2_powr)

lemma pow2_le_iff: "pow2 a \<le> pow2 b \<longleftrightarrow> a \<le> b"
  by (simp add: pow2_powr)

lemma pow2_less_iff: "pow2 a < pow2 b \<longleftrightarrow> a < b"
  by (simp add: pow2_powr)

lemma pow2_nat: "pow2 (int n) = 2 ^ n"
  by (simp add: pow2_def)

lemma pow2_is_int: "0 \<le> e \<Longrightarrow> pow2 e = of_int (2 ^ nat e)"
  by (simp add: pow2_def)

lemma rne_of_int [simp]: "rne (of_int k) = k"
  by (simp add: rne_def)

lemma rne_0 [simp]: "rne 0 = 0"
  by (simp add: rne_def)

lemma rne_floor_le: "\<lfloor>x\<rfloor> \<le> rne x"
  by (simp add: rne_def Let_def)

lemma rne_le_floor1: "rne x \<le> \<lfloor>x\<rfloor> + 1"
  by (simp add: rne_def Let_def)

lemma rne_ge: "of_int k \<le> x \<Longrightarrow> k \<le> rne x"
proof -
  assume "of_int k \<le> x"
  then have "k \<le> \<lfloor>x\<rfloor>" by (simp add: le_floor_iff)
  then show ?thesis using rne_floor_le [of x] by linarith
qed

lemma rne_le: "x \<le> of_int k \<Longrightarrow> rne x \<le> k"
proof -
  assume h: "x \<le> of_int k"
  show ?thesis
  proof (cases "x = of_int k")
    case True
    then show ?thesis by simp
  next
    case False
    then have "x < of_int k" using h by simp
    then have "\<lfloor>x\<rfloor> < k" by (simp add: floor_less_iff)
    then show ?thesis using rne_le_floor1 [of x] by linarith
  qed
qed

lemma rne_mono: "x \<le> y \<Longrightarrow> rne x \<le> rne y"
proof -
  assume h: "x \<le> y"
  have fm: "\<lfloor>x\<rfloor> \<le> \<lfloor>y\<rfloor>" using h by (rule floor_mono)
  show ?thesis
  proof (cases "\<lfloor>x\<rfloor> = \<lfloor>y\<rfloor>")
    case True
    have "x - of_int \<lfloor>y\<rfloor> \<le> y - of_int \<lfloor>y\<rfloor>" using h by simp
    then show ?thesis using True by (simp add: rne_def Let_def)
  next
    case False
    then have "\<lfloor>x\<rfloor> + 1 \<le> \<lfloor>y\<rfloor>" using fm by linarith
    then show ?thesis using rne_le_floor1 [of x] rne_floor_le [of y] by linarith
  qed
qed

lemma rne_err: "\<bar>of_int (rne x) - x\<bar> \<le> 1 / 2"
proof -
  have a: "of_int \<lfloor>x\<rfloor> \<le> x" by simp
  have b: "x < of_int \<lfloor>x\<rfloor> + 1" by linarith
  show ?thesis
  proof (cases "x - of_int \<lfloor>x\<rfloor> < 1 / 2")
    case True
    then have "rne x = \<lfloor>x\<rfloor>" by (simp add: rne_def Let_def)
    then show ?thesis using True a by simp
  next
    case False
    note nlt = this
    show ?thesis
    proof (cases "1 / 2 < x - of_int \<lfloor>x\<rfloor>")
      case True
      then have "rne x = \<lfloor>x\<rfloor> + 1" using nlt by (simp add: rne_def Let_def)
      then show ?thesis using True b by simp
    next
      case False
      then have eq: "x - of_int \<lfloor>x\<rfloor> = 1 / 2" using nlt by simp
      have "rne x = \<lfloor>x\<rfloor> \<or> rne x = \<lfloor>x\<rfloor> + 1" by (simp add: rne_def Let_def)
      then show ?thesis using eq by auto
    qed
  qed
qed

lemma rne_nonneg: "0 \<le> x \<Longrightarrow> 0 \<le> rne x"
  using rne_ge [of 0 x] by simp

section \<open>The binary exponent\<close>

lemma expo_up_range: "0 \<le> expo_up n x \<and> expo_up n x \<le> int n"
  by (induction n arbitrary: x) auto

lemma expo_up_lower: "1 \<le> x \<Longrightarrow> pow2 (expo_up n x) \<le> x"
proof (induction n arbitrary: x)
  case 0
  then show ?case by simp
next
  case (Suc n)
  show ?case
  proof (cases "2 \<le> x")
    case True
    then have "pow2 (expo_up n (x / 2)) \<le> x / 2" using Suc.IH [of "x / 2"] by simp
    then show ?thesis using True by (simp add: pow2_Suc)
  next
    case False
    then show ?thesis using Suc.prems by simp
  qed
qed

lemma expo_up_upper: "x < 2 ^ (n + 1) \<Longrightarrow> x < pow2 (expo_up n x + 1)"
proof (induction n arbitrary: x)
  case 0
  then show ?case by simp
next
  case (Suc n)
  show ?case
  proof (cases "2 \<le> x")
    case True
    have "x / 2 < 2 ^ (n + 1)" using Suc.prems by simp
    then have "x / 2 < pow2 (expo_up n (x / 2) + 1)" by (rule Suc.IH)
    then have "x < 2 * pow2 (expo_up n (x / 2) + 1)" by simp
    also have "\<dots> = pow2 (expo_up n (x / 2) + 1 + 1)" by (simp only: pow2_Suc)
    finally show ?thesis using True by simp
  next
    case False
    then show ?thesis by simp
  qed
qed

lemma expo_up_cap: "2 ^ (n + 1) \<le> x \<Longrightarrow> expo_up n x = int n"
proof (induction n arbitrary: x)
  case 0
  then show ?case by simp
next
  case (Suc n)
  have "(2::real) ^ 1 \<le> 2 ^ (Suc n + 1)" by (rule power_increasing) simp_all
  then have "(2::real) \<le> 2 ^ (Suc n + 1)" by simp
  then have two: "2 \<le> x" using Suc.prems by (rule order_trans)
  have "2 ^ (n + 1) \<le> x / 2" using Suc.prems by simp
  then have "expo_up n (x / 2) = int n" by (rule Suc.IH)
  then show ?case using two by simp
qed

lemma expo_down_range: "- int n \<le> expo_down n x \<and> expo_down n x \<le> 0"
proof (induction n arbitrary: x)
  case 0
  then show ?case by simp
next
  case (Suc n)
  show ?case using Suc.IH [of "x * 2"] by auto
qed

lemma expo_down_upper: "x < 2 \<Longrightarrow> x < pow2 (expo_down n x + 1)"
proof (induction n arbitrary: x)
  case 0
  then show ?case by simp
next
  case (Suc n)
  show ?case
  proof (cases "x < 1")
    case True
    then have "x * 2 < pow2 (expo_down n (x * 2) + 1)" using Suc.IH [of "x * 2"] by simp
    then show ?thesis using True by (simp add: pow2_Suc)
  next
    case False
    then show ?thesis using Suc.prems by simp
  qed
qed

lemma expo_down_lower: "pow2 (- int n) \<le> x \<Longrightarrow> pow2 (expo_down n x) \<le> x"
proof (induction n arbitrary: x)
  case 0
  then show ?case by simp
next
  case (Suc n)
  show ?case
  proof (cases "x < 1")
    case True
    have "pow2 (- int n) = 2 * pow2 (- int (Suc n))"
      using pow2_Suc [of "- int (Suc n)"] by simp
    then have "pow2 (- int n) \<le> x * 2" using Suc.prems by simp
    then have "pow2 (expo_down n (x * 2)) \<le> x * 2" by (rule Suc.IH)
    then show ?thesis using True by (simp add: pow2_pred)
  next
    case False
    then show ?thesis by simp
  qed
qed

lemma expo_down_cap: "x < pow2 (- int n) \<Longrightarrow> expo_down n x = - int n"
proof (induction n arbitrary: x)
  case 0
  then show ?case by simp
next
  case (Suc n)
  have eq: "pow2 (- int n) = 2 * pow2 (- int (Suc n))"
    using pow2_Suc [of "- int (Suc n)"] by simp
  have "pow2 (- int (Suc n)) \<le> pow2 0" by (rule pow2_mono) simp
  then have one: "x < 1" using Suc.prems by simp
  have "x * 2 < pow2 (- int n)" using Suc.prems eq by simp
  then have "expo_down n (x * 2) = - int n" by (rule Suc.IH)
  then show ?case using one by simp
qed

lemma expo_range: "- int emin \<le> expo emax emin a \<and> expo emax emin a \<le> int emax"
  using expo_up_range [of emax a] expo_down_range [of emin a] by (auto simp: expo_def)

lemma expo_upper: "a < pow2 (int emax + 1) \<Longrightarrow> a < pow2 (expo emax emin a + 1)"
proof -
  assume h: "a < pow2 (int emax + 1)"
  have "pow2 (int emax + 1) = 2 ^ (emax + 1)" using pow2_nat [of "emax + 1"] by (simp add: add.commute)
  then have "a < 2 ^ (emax + 1)" using h by simp
  then show ?thesis using expo_up_upper [of a emax] expo_down_upper [of a emin]
    by (auto simp: expo_def)
qed

lemma expo_lower: "pow2 (- int emin) \<le> a \<Longrightarrow> pow2 (expo emax emin a) \<le> a"
  using expo_up_lower [of a emax] expo_down_lower [of emin a] by (auto simp: expo_def)

lemma expo_cap_lo: "a < pow2 (- int emin) \<Longrightarrow> expo emax emin a = - int emin"
proof -
  assume h: "a < pow2 (- int emin)"
  have "pow2 (- int emin) \<le> pow2 0" by (rule pow2_mono) simp
  then have "a < 1" using h by simp
  then show ?thesis using expo_down_cap [OF h] by (simp add: expo_def)
qed

lemma expo_cap_hi: "pow2 (int emax + 1) \<le> a \<Longrightarrow> expo emax emin a = int emax"
proof -
  assume h: "pow2 (int emax + 1) \<le> a"
  have e: "pow2 (int emax + 1) = 2 ^ (emax + 1)" using pow2_nat [of "emax + 1"] by (simp add: add.commute)
  have "pow2 0 \<le> pow2 (int emax + 1)" by (rule pow2_mono) simp
  then have "1 \<le> a" using h by simp
  then show ?thesis using expo_up_cap [of emax a] h e by (simp add: expo_def)
qed

lemma expo_mono: "a \<le> b \<Longrightarrow> expo emax emin a \<le> expo emax emin b"
proof (rule ccontr)
  assume ab: "a \<le> b" and "\<not> expo emax emin a \<le> expo emax emin b"
  then have gt: "expo emax emin b < expo emax emin a" by simp
  have lo: "pow2 (expo emax emin a) \<le> a"
  proof (cases "a < pow2 (- int emin)")
    case True
    then have "expo emax emin a = - int emin" by (rule expo_cap_lo)
    then show ?thesis using gt expo_range [of emin emax b] by linarith
  next
    case False
    then show ?thesis by (intro expo_lower) simp
  qed
  have hi: "b < pow2 (expo emax emin b + 1)"
  proof (cases "b < pow2 (int emax + 1)")
    case True
    then show ?thesis by (rule expo_upper)
  next
    case False
    then have "expo emax emin b = int emax" by (intro expo_cap_hi) simp
    then show ?thesis using gt expo_range [of emin emax a] by linarith
  qed
  have "pow2 (expo emax emin a) < pow2 (expo emax emin b + 1)" using lo hi ab by linarith
  then show False using gt by (simp add: pow2_less_iff)
qed

lemma expo_unique:
  assumes "pow2 e \<le> a" "a < pow2 (e + 1)" "- int emin \<le> e" "e \<le> int emax"
  shows "expo emax emin a = e"
proof -
  have "pow2 (- int emin) \<le> pow2 e" using assms(3) by (rule pow2_mono)
  then have lo: "pow2 (expo emax emin a) \<le> a" using assms(1) by (intro expo_lower) simp
  have "pow2 (e + 1) \<le> pow2 (int emax + 1)" using assms(4) by (intro pow2_mono) simp
  then have hi: "a < pow2 (expo emax emin a + 1)" using assms(2) by (intro expo_upper) simp
  have "pow2 (expo emax emin a) < pow2 (e + 1)" using lo assms(2) by linarith
  moreover have "pow2 e < pow2 (expo emax emin a + 1)" using hi assms(1) by linarith
  ultimately show ?thesis by (simp add: pow2_less_iff)
qed

section \<open>Rounding to a format\<close>

lemma round_to_0 [simp]: "round_to p emax emin 0 = 0"
  by (simp add: round_to_def)

lemma round_to_neg: "round_to p emax emin (- x) = - round_to p emax emin x"
  by (simp add: round_to_def Let_def sgn_minus)

lemma round_to_pos:
  "0 \<le> x \<Longrightarrow> round_to p emax emin x =
     of_int (rne (x / pow2 (expo emax emin x - int p))) * pow2 (expo emax emin x - int p)"
  by (cases "x = 0") (simp_all add: round_to_def Let_def)

lemma round_to_nonneg: "0 \<le> x \<Longrightarrow> 0 \<le> round_to p emax emin x"
proof -
  assume h: "0 \<le> x"
  have "0 \<le> x / pow2 (expo emax emin x - int p)" using h by simp
  then have "0 \<le> rne (x / pow2 (expo emax emin x - int p))" by (rule rne_nonneg)
  then show ?thesis using h by (simp add: round_to_pos)
qed

lemma round_to_le_grid:
  assumes "0 \<le> x" "x \<le> of_int m * pow2 (expo emax emin x - int p)"
  shows "round_to p emax emin x \<le> of_int m * pow2 (expo emax emin x - int p)"
proof -
  let ?u = "pow2 (expo emax emin x - int p)"
  have "x / ?u \<le> of_int m" using assms(2) by (simp add: pos_divide_le_eq)
  then have "rne (x / ?u) \<le> m" by (rule rne_le)
  then have "of_int (rne (x / ?u)) * ?u \<le> of_int m * ?u" by simp
  then show ?thesis using assms(1) by (simp add: round_to_pos)
qed

lemma round_to_ge_grid:
  assumes "0 \<le> x" "of_int m * pow2 (expo emax emin x - int p) \<le> x"
  shows "of_int m * pow2 (expo emax emin x - int p) \<le> round_to p emax emin x"
proof -
  let ?u = "pow2 (expo emax emin x - int p)"
  have "of_int m \<le> x / ?u" using assms(2) by (simp add: pos_le_divide_eq)
  then have "m \<le> rne (x / ?u)" by (rule rne_ge)
  then have "of_int m * ?u \<le> of_int (rne (x / ?u)) * ?u" by simp
  then show ?thesis using assms(1) by (simp add: round_to_pos)
qed

lemma pow2_split: "pow2 e = of_int (2 ^ p) * pow2 (e - int p)"
proof -
  have "pow2 e = pow2 (int p + (e - int p))" by simp
  also have "\<dots> = pow2 (int p) * pow2 (e - int p)" by (rule pow2_add)
  finally show ?thesis by (simp add: pow2_nat)
qed

lemma round_to_le_binade:
  assumes "0 \<le> x" "x < pow2 (int emax + 1)"
  shows "round_to p emax emin x \<le> pow2 (expo emax emin x + 1)"
proof -
  have "x < pow2 (expo emax emin x + 1)" using assms(2) by (rule expo_upper)
  then have "x \<le> of_int (2 ^ (p + 1)) * pow2 (expo emax emin x - int p)"
    using pow2_split [of "expo emax emin x + 1" "p + 1"] by simp
  then have "round_to p emax emin x \<le> of_int (2 ^ (p + 1)) * pow2 (expo emax emin x - int p)"
    using assms(1) by (intro round_to_le_grid)
  then show ?thesis using pow2_split [of "expo emax emin x + 1" "p + 1"] by simp
qed

lemma round_to_ge_binade:
  assumes "pow2 (- int emin) \<le> x"
  shows "pow2 (expo emax emin x) \<le> round_to p emax emin x"
proof -
  have "0 < pow2 (- int emin)" by simp
  then have x0: "0 \<le> x" using assms by linarith
  have "pow2 (expo emax emin x) \<le> x" using assms by (rule expo_lower)
  then have "of_int (2 ^ p) * pow2 (expo emax emin x - int p) \<le> x"
    using pow2_split [of "expo emax emin x" p] by simp
  then have "of_int (2 ^ p) * pow2 (expo emax emin x - int p) \<le> round_to p emax emin x"
    using x0 by (intro round_to_ge_grid)
  then show ?thesis using pow2_split [of "expo emax emin x" p] by simp
qed

lemma round_to_mono_pos:
  assumes "0 \<le> x" "x \<le> y"
  shows "round_to p emax emin x \<le> round_to p emax emin y"
proof -
  let ?ex = "expo emax emin x" and ?ey = "expo emax emin y"
  have y0: "0 \<le> y" using assms by linarith
  have le: "?ex \<le> ?ey" using assms(2) by (rule expo_mono)
  show ?thesis
  proof (cases "?ex = ?ey")
    case True
    let ?u = "pow2 (?ey - int p)"
    have "x / ?u \<le> y / ?u" using assms(2) by (simp add: divide_right_mono)
    then have "rne (x / ?u) \<le> rne (y / ?u)" by (rule rne_mono)
    then have "of_int (rne (x / ?u)) * ?u \<le> of_int (rne (y / ?u)) * ?u" by simp
    then show ?thesis using assms(1) y0 True by (simp add: round_to_pos)
  next
    case False
    then have lt: "?ex < ?ey" using le by simp
    have "x < pow2 (int emax + 1)"
    proof (rule ccontr)
      assume "\<not> x < pow2 (int emax + 1)"
      then have "?ex = int emax" by (intro expo_cap_hi) simp
      then show False using lt expo_range [of emin emax y] by linarith
    qed
    then have a: "round_to p emax emin x \<le> pow2 (?ex + 1)"
      using assms(1) by (intro round_to_le_binade)
    have "pow2 (- int emin) \<le> y"
    proof (rule ccontr)
      assume "\<not> pow2 (- int emin) \<le> y"
      then have "?ey = - int emin" by (intro expo_cap_lo) simp
      then show False using lt expo_range [of emin emax x] by linarith
    qed
    then have b: "pow2 ?ey \<le> round_to p emax emin y" by (rule round_to_ge_binade)
    have "pow2 (?ex + 1) \<le> pow2 ?ey" using lt by (intro pow2_mono) simp
    then show ?thesis using a b by linarith
  qed
qed

lemma round_to_mono:
  assumes "x \<le> y"
  shows "round_to p emax emin x \<le> round_to p emax emin y"
proof (cases "0 \<le> x")
  case True
  then show ?thesis using assms by (rule round_to_mono_pos)
next
  case False
  note xneg = this
  show ?thesis
  proof (cases "0 \<le> y")
    case True
    have "0 \<le> round_to p emax emin (- x)" using xneg by (intro round_to_nonneg) simp
    then have "round_to p emax emin x \<le> 0" by (simp add: round_to_neg)
    moreover have "0 \<le> round_to p emax emin y" using True by (rule round_to_nonneg)
    ultimately show ?thesis by linarith
  next
    case False
    then have "round_to p emax emin (- y) \<le> round_to p emax emin (- x)"
      using assms by (intro round_to_mono_pos) simp_all
    then show ?thesis by (simp add: round_to_neg)
  qed
qed

lemma round_to_fix_pos:
  assumes "0 \<le> x" "x = of_int k * pow2 (expo emax emin x - int p)"
  shows "round_to p emax emin x = x"
proof -
  let ?u = "pow2 (expo emax emin x - int p)"
  have "x / ?u = of_int k" using assms(2) by (simp add: nonzero_divide_eq_eq)
  then have "rne (x / ?u) = k" by simp
  then show ?thesis using assms by (simp add: round_to_pos)
qed

lemma round_to_err:
  "\<bar>round_to p emax emin x - x\<bar> \<le> pow2 (expo emax emin \<bar>x\<bar> - int p) / 2"
proof -
  let ?u = "pow2 (expo emax emin \<bar>x\<bar> - int p)"
  have pos: "\<bar>round_to p emax emin \<bar>x\<bar> - \<bar>x\<bar>\<bar> \<le> ?u / 2"
  proof -
    have "\<bar>of_int (rne (\<bar>x\<bar> / ?u)) - \<bar>x\<bar> / ?u\<bar> \<le> 1 / 2" by (rule rne_err)
    then have "\<bar>of_int (rne (\<bar>x\<bar> / ?u)) - \<bar>x\<bar> / ?u\<bar> * ?u \<le> 1 / 2 * ?u"
      by (intro mult_right_mono) simp_all
    moreover have "\<bar>of_int (rne (\<bar>x\<bar> / ?u)) - \<bar>x\<bar> / ?u\<bar> * ?u
        = \<bar>of_int (rne (\<bar>x\<bar> / ?u)) * ?u - \<bar>x\<bar>\<bar>"
    proof -
      have "\<bar>of_int (rne (\<bar>x\<bar> / ?u)) - \<bar>x\<bar> / ?u\<bar> * ?u
          = \<bar>(of_int (rne (\<bar>x\<bar> / ?u)) - \<bar>x\<bar> / ?u) * ?u\<bar>"
        by (simp add: abs_mult)
      also have "(of_int (rne (\<bar>x\<bar> / ?u)) - \<bar>x\<bar> / ?u) * ?u
          = of_int (rne (\<bar>x\<bar> / ?u)) * ?u - \<bar>x\<bar>"
        by (simp add: left_diff_distrib)
      finally show ?thesis .
    qed
    ultimately show ?thesis by (simp add: round_to_pos)
  qed
  show ?thesis
  proof (cases "0 \<le> x")
    case True
    then show ?thesis using pos by simp
  next
    case False
    then have "\<bar>x\<bar> = - x" by simp
    then have "round_to p emax emin \<bar>x\<bar> - \<bar>x\<bar> = - (round_to p emax emin x - x)"
      by (simp add: round_to_neg)
    then show ?thesis using pos by (simp only: abs_minus_cancel)
  qed
qed

lemma round_to_rel_err:
  assumes "pow2 (- int emin) \<le> \<bar>x\<bar>"
  shows "\<bar>round_to p emax emin x - x\<bar> \<le> \<bar>x\<bar> * pow2 (- int p - 1)"
proof -
  let ?e = "expo emax emin \<bar>x\<bar>"
  have "pow2 ?e \<le> \<bar>x\<bar>" using assms by (rule expo_lower)
  then have "pow2 ?e * pow2 (- int p - 1) \<le> \<bar>x\<bar> * pow2 (- int p - 1)"
    by (intro mult_right_mono) simp_all
  moreover have "pow2 ?e * pow2 (- int p - 1) = pow2 (?e - int p) / 2"
  proof -
    have "pow2 ?e * pow2 (- int p - 1) = pow2 (?e + (- int p - 1))" by (simp only: pow2_add)
    also have "?e + (- int p - 1) = (?e - int p) - 1" by simp
    finally show ?thesis by (simp only: pow2_pred)
  qed
  ultimately show ?thesis using round_to_err [of p emax emin x] by linarith
qed

lemma round_to_fix_dyadic:
  assumes m: "0 < m" "m < 2 ^ (p + 1)"
    and q: "- int emin - int p \<le> q"
    and x: "x = of_int m * pow2 q" "x < pow2 (int emax + 1)"
  shows "round_to p emax emin x = x"
proof -
  let ?e = "expo emax emin x"
  have x0: "0 < x" using m(1) x(1) by simp
  have e: "?e \<le> q + int p"
  proof (cases "x < pow2 (- int emin)")
    case True
    then have "?e = - int emin" by (rule expo_cap_lo)
    then show ?thesis using q by linarith
  next
    case False
    then have "pow2 ?e \<le> x" by (intro expo_lower) simp
    moreover have "x < pow2 (int p + 1 + q)"
    proof -
      have "real_of_int m < of_int (2 ^ (p + 1))" using m(2) by (simp only: of_int_less_iff)
      then have lt: "of_int m * pow2 q < of_int (2 ^ (p + 1)) * pow2 q"
        by (intro mult_strict_right_mono) simp_all
      have "int p + 1 + q - int (p + 1) = q" by simp
      then have eq: "of_int (2 ^ (p + 1)) * pow2 q = pow2 (int p + 1 + q)"
        using pow2_split [of "int p + 1 + q" "p + 1"] by (simp only:)
      show ?thesis using lt unfolding x(1) eq .
    qed
    ultimately have "pow2 ?e < pow2 (int p + 1 + q)" by linarith
    then show ?thesis by (simp add: pow2_less_iff)
  qed
  define d where "d = nat (q + int p - ?e)"
  have qd: "q = int d + (?e - int p)" using e by (simp add: d_def)
  have "pow2 q = pow2 (int d) * pow2 (?e - int p)" by (subst qd) (rule pow2_add)
  then have "x = of_int (m * 2 ^ d) * pow2 (?e - int p)"
    using x(1) by (simp add: pow2_nat)
  moreover have "0 \<le> x" using x0 by simp
  ultimately show ?thesis by (intro round_to_fix_pos [where k = "m * 2 ^ d"])
qed

lemma rd64_0 [simp]: "rd64 0 = 0"
  by (simp add: rd64_def)

lemma rd64_neg: "rd64 (- x) = - rd64 x"
  by (simp add: rd64_def round_to_neg)

lemma rd64_mono: "x \<le> y \<Longrightarrow> rd64 x \<le> rd64 y"
  by (simp add: rd64_def round_to_mono)

lemma rd64_nonneg: "0 \<le> x \<Longrightarrow> 0 \<le> rd64 x"
  by (simp add: rd64_def round_to_nonneg)

lemma rd64_dyadic:
  assumes "0 < m" "m < 2 ^ 53" "- 1074 \<le> q" "x = of_int m * pow2 q" "x < pow2 1024"
  shows "rd64 x = x"
  unfolding rd64_def using assms by (intro round_to_fix_dyadic [where m = m and q = q]) simp_all

lemma rd64_pow2: "- 1074 \<le> k \<Longrightarrow> k \<le> 1023 \<Longrightarrow> rd64 (pow2 k) = pow2 k"
  by (rule rd64_dyadic [where m = 1 and q = k]) (simp_all add: pow2_less_iff)

lemma rd64_nat: 
  assumes "n \<le> 2 ^ 53"
  shows "rd64 (real n) = real n"
proof (cases "n = 0")
  case True
  then show ?thesis by simp
next
  case False
  note n0 = this
  have big: "(2::real) ^ 53 < pow2 1024"
    using pow2_less_iff [of 53 1024] by (simp add: pow2_def)
  show ?thesis
  proof (cases "n = 2 ^ 53")
    case True
    have "rd64 (pow2 53) = pow2 53" by (rule rd64_pow2) simp_all
    then show ?thesis using True by (simp add: pow2_def)
  next
    case False
    then have lt: "n < 2 ^ 53" using assms by simp
    then have "real n < 2 ^ 53" by (metis of_nat_less_iff of_nat_numeral of_nat_power)
    then have "real n < pow2 1024" using big by linarith
    moreover have "int n < 2 ^ 53" using lt by (metis of_nat_less_iff of_nat_numeral of_nat_power)
    ultimately show ?thesis using n0
      by (intro rd64_dyadic [where m = "int n" and q = 0]) simp_all
  qed
qed

lemma rd64_1 [simp]: "rd64 1 = 1"
  using rd64_nat [of 1] by simp

lemma fround_0 [simp]: "fround 0 = 0"
  by (simp add: fround_def)

lemma fround_neg: "fround (- x) = - fround x"
  by (simp add: fround_def round_to_neg)

lemma fround_mono: "x \<le> y \<Longrightarrow> fround x \<le> fround y"
  by (simp add: fround_def round_to_mono)

lemma fround_dyadic:
  assumes "0 < m" "m < 2 ^ 24" "- 149 \<le> q" "x = of_int m * pow2 q" "x < pow2 128"
  shows "fround x = x"
  unfolding fround_def using assms by (intro round_to_fix_dyadic [where m = m and q = q]) simp_all

lemma fround_1 [simp]: "fround 1 = 1"
  by (rule fround_dyadic [where m = 1 and q = 0]) (simp_all add: pow2_def)

section \<open>Binary32 values\<close>

lemma fround_abs: "fround \<bar>x\<bar> = \<bar>fround x\<bar>"
proof (cases "0 \<le> x")
  case True
  then have "0 \<le> fround x" unfolding fround_def by (rule round_to_nonneg)
  then show ?thesis using True by simp
next
  case False
  then have "0 \<le> fround (- x)" unfolding fround_def by (intro round_to_nonneg) simp
  then show ?thesis using False by (simp add: fround_neg)
qed

lemma rd64_abs: "rd64 \<bar>x\<bar> = \<bar>rd64 x\<bar>"
proof (cases "0 \<le> x")
  case True
  then have "0 \<le> rd64 x" by (rule rd64_nonneg)
  then show ?thesis using True by simp
next
  case False
  then have "0 \<le> rd64 (- x)" by (intro rd64_nonneg) simp
  then show ?thesis using False by (simp add: rd64_neg)
qed

text \<open>A non-zero binary32 value is an integer below \<open>2 ^ 24\<close> times a power of two.\<close>

lemma float32_dyadic:
  assumes "is_float32 x" "x \<noteq> 0"
  obtains k q where "0 < k" "k < 2 ^ 24" "- 149 \<le> q" "\<bar>x\<bar> = of_int k * pow2 q"
proof -
  let ?a = "\<bar>x\<bar>"
  let ?e = "expo 127 126 ?a"
  let ?u = "pow2 (?e - 23)"
  let ?k = "rne (?a / ?u)"
  have a0: "0 < ?a" using assms(2) by simp
  have fx: "fround ?a = ?a" using assms(1) by (simp add: is_float32_def fround_abs)
  have lt: "?a < pow2 (int 127 + 1)" using assms(1) by (simp add: is_float32_def pow2_def)
  have ak: "?a = of_int ?k * ?u"
    using fx round_to_pos [of ?a 23 127 126] by (simp add: fround_def)
  have k0: "0 < ?k"
  proof (rule ccontr)
    assume "\<not> 0 < ?k"
    moreover have "0 \<le> ?k" by (rule rne_nonneg) simp
    ultimately have "?k = 0" by simp
    then show False using ak a0 by simp
  qed
  have "?a < pow2 (?e + 1)" using lt by (rule expo_upper)
  then have "of_int ?k * ?u < of_int (2 ^ 24) * ?u"
    using ak pow2_split [of "?e + 1" 24] by simp
  then have "real_of_int ?k < of_int (2 ^ 24)" by (simp only: mult_less_cancel_right_pos pow2_pos)
  then have k24: "?k < 2 ^ 24" by (simp only: of_int_less_iff)
  have "- 149 \<le> ?e - 23" using expo_range [of 126 127 ?a] by simp
  then show ?thesis using k0 k24 ak that by blast
qed

lemma float32_is_double:
  assumes "is_float32 x"
  shows "rd64 x = x"
proof (cases "x = 0")
  case True
  then show ?thesis by simp
next
  case False
  obtain k q where kq: "0 < k" "k < 2 ^ 24" "- 149 \<le> q" "\<bar>x\<bar> = of_int k * pow2 q"
    using assms False by (rule float32_dyadic)
  have "(2::int) ^ 24 \<le> 2 ^ 53" by simp
  then have k53: "k < 2 ^ 53" using kq(2) by linarith
  have "\<bar>x\<bar> < 2 ^ 128" using assms by (simp add: is_float32_def)
  moreover have "(2::real) ^ 128 \<le> pow2 1024"
    using pow2_mono [of 128 1024] by (simp add: pow2_def)
  ultimately have "\<bar>x\<bar> < pow2 1024" by linarith
  then have "rd64 \<bar>x\<bar> = \<bar>x\<bar>"
    using kq k53 by (intro rd64_dyadic [where m = k and q = q]) simp_all
  then have abs: "\<bar>rd64 x\<bar> = \<bar>x\<bar>" by (simp add: rd64_abs)
  show ?thesis
  proof (cases "0 \<le> x")
    case True
    then have "0 \<le> rd64 x" by (rule rd64_nonneg)
    then show ?thesis using abs True by simp
  next
    case False
    then have "0 \<le> rd64 (- x)" by (intro rd64_nonneg) simp
    then have "rd64 x \<le> 0" by (simp add: rd64_neg)
    then show ?thesis using abs False by simp
  qed
qed

lemma float32_nonzero_ge:
  assumes "is_float32 x" "x \<noteq> 0"
  shows "pow2 (- 149) \<le> \<bar>x\<bar>"
proof -
  obtain k q where kq: "0 < k" "k < 2 ^ 24" "- 149 \<le> q" "\<bar>x\<bar> = of_int k * pow2 q"
    using assms by (rule float32_dyadic)
  have "pow2 (- 149) \<le> pow2 q" using kq(3) by (rule pow2_mono)
  also have "\<dots> = 1 * pow2 q" by simp
  also have "\<dots> \<le> of_int k * pow2 q"
    using kq(1) by (intro mult_right_mono) simp_all
  finally show ?thesis using kq(4) by simp
qed

section \<open>Lemmas on the normaliser\<close>

lemma square_step_ge:
  assumes "t \<le> s" "rd64 t = t"
  shows "t \<le> fadd s (fmul x x)"
proof -
  have "0 \<le> fmul x x" unfolding fmul_def by (rule rd64_nonneg) simp
  then have "t \<le> s + fmul x x" using assms(1) by linarith
  then have "rd64 t \<le> rd64 (s + fmul x x)" by (rule rd64_mono)
  then show ?thesis using assms(2) by (simp add: fadd_def)
qed

lemma fold_squares_ge:
  assumes "t \<le> s" "rd64 t = t"
  shows "t \<le> fold (\<lambda>x s. fadd s (fmul x x)) xs s"
  using assms(1)
proof (induction xs arbitrary: s)
  case Nil
  then show ?case by simp
next
  case (Cons x xs)
  have "t \<le> fadd s (fmul x x)" using Cons.prems assms(2) by (rule square_step_ge)
  then show ?case using Cons.IH by simp
qed

lemma rd64_pow2_298: "rd64 (pow2 (- 298)) = pow2 (- 298)"
  by (rule rd64_pow2) simp_all

lemma square_of_float32_ge:
  assumes "is_float32 x" "x \<noteq> 0"
  shows "pow2 (- 298) \<le> fmul x x"
proof -
  have a: "pow2 (- 149) \<le> \<bar>x\<bar>" using assms by (rule float32_nonzero_ge)
  have "pow2 (- 149) * pow2 (- 149) \<le> \<bar>x\<bar> * \<bar>x\<bar>"
    using a by (intro mult_mono) simp_all
  moreover have "pow2 (- 149) * pow2 (- 149) = pow2 (- 298)"
    using pow2_add [of "- 149" "- 149"] by simp
  ultimately have "pow2 (- 298) \<le> x * x" by simp
  then have "rd64 (pow2 (- 298)) \<le> rd64 (x * x)" by (rule rd64_mono)
  then show ?thesis by (simp add: fmul_def rd64_pow2_298)
qed

lemma fold_squares_nonzero:
  assumes "list_all is_float32 xs" "\<exists>x \<in> set xs. x \<noteq> 0" "0 \<le> s"
  shows "pow2 (- 298) \<le> fold (\<lambda>x s. fadd s (fmul x x)) xs s"
  using assms
proof (induction xs arbitrary: s)
  case Nil
  then show ?case by simp
next
  case (Cons x xs)
  have s': "0 \<le> fadd s (fmul x x)"
    using square_step_ge [of 0 s x] Cons.prems(3) by simp
  show ?case
  proof (cases "x = 0")
    case True
    then have "\<exists>y \<in> set xs. y \<noteq> 0" using Cons.prems(2) by auto
    then show ?thesis using Cons.IH [OF _ _ s'] Cons.prems(1) by simp
  next
    case False
    have "is_float32 x" using Cons.prems(1) by simp
    then have "pow2 (- 298) \<le> fmul x x" using False by (rule square_of_float32_ge)
    then have "pow2 (- 298) \<le> s + fmul x x" using Cons.prems(3) by linarith
    then have "rd64 (pow2 (- 298)) \<le> rd64 (s + fmul x x)" by (rule rd64_mono)
    then have "pow2 (- 298) \<le> fadd s (fmul x x)" by (simp add: fadd_def rd64_pow2_298)
    then have "pow2 (- 298) \<le> fold (\<lambda>x s. fadd s (fmul x x)) xs (fadd s (fmul x x))"
      using rd64_pow2_298 by (rule fold_squares_ge)
    then show ?thesis by simp
  qed
qed

lemma sumSquares_zeros:
  assumes "\<forall>x \<in> set xs. x = 0"
  shows "sumSquares xs = 0"
proof -
  have "fold (\<lambda>x s. fadd s (fmul x x)) xs 0 = 0" using assms
    by (induction xs) (simp_all add: fadd_def fmul_def)
  then show ?thesis by (simp add: sumSquares_def)
qed

lemma rms_of_zeros:
  assumes "\<forall>x \<in> set xs. x = 0"
  shows "rms_of xs = 0"
  using sumSquares_zeros [OF assms] by (simp add: rms_of_def Math_sqrt_def fdiv_def)

lemma rms_of_pos:
  assumes "float32_array xs" "\<exists>x \<in> set xs. x \<noteq> 0"
  shows "0 < rms_of xs"
proof -
  let ?n = "real (length xs)"
  have fl: "list_all is_float32 xs" and len: "length xs < 2 ^ 53"
    using assms(1) by (simp_all add: float32_array_def)
  have ne: "xs \<noteq> []" using assms(2) by auto
  then have n1: "1 \<le> ?n" by (cases xs) simp_all
  have "real (length xs) < real (2 ^ 53)" using len by (simp only: of_nat_less_iff)
  then have n53: "?n \<le> pow2 53" by (simp add: pow2_def)
  have S: "pow2 (- 298) \<le> sumSquares xs"
    unfolding sumSquares_def using fl assms(2) by (intro fold_squares_nonzero) simp_all
  have "pow2 (- 351) * ?n \<le> pow2 (- 351) * pow2 53" using n53 by (intro mult_left_mono) simp_all
  also have "\<dots> = pow2 (- 298)" using pow2_add [of "- 351" 53] by simp
  finally have "pow2 (- 351) * ?n \<le> sumSquares xs" using S by linarith
  moreover have "0 < ?n" using n1 by linarith
  ultimately have "pow2 (- 351) \<le> sumSquares xs / ?n" by (simp only: pos_le_divide_eq)
  then have "rd64 (pow2 (- 351)) \<le> rd64 (sumSquares xs / ?n)" by (rule rd64_mono)
  then have D: "pow2 (- 351) \<le> fdiv (sumSquares xs) ?n"
    using rd64_pow2 [of "- 351"] by (simp add: fdiv_def)
  have "pow2 (- 176) * pow2 (- 176) = pow2 (- 352)" using pow2_add [of "- 176" "- 176"] by simp
  moreover have "pow2 (- 352) \<le> pow2 (- 351)" by (rule pow2_mono) simp
  ultimately have "(pow2 (- 176))\<^sup>2 \<le> fdiv (sumSquares xs) ?n"
    using D by (simp add: power2_eq_square)
  then have "pow2 (- 176) \<le> sqrt (fdiv (sumSquares xs) ?n)"
    by (intro real_le_rsqrt)
  then have "rd64 (pow2 (- 176)) \<le> rd64 (sqrt (fdiv (sumSquares xs) ?n))" by (rule rd64_mono)
  then have "pow2 (- 176) \<le> rms_of xs"
    using rd64_pow2 [of "- 176"] by (simp add: rms_of_def Math_sqrt_def)
  moreover have "0 < pow2 (- 176)" by simp
  ultimately show ?thesis by linarith
qed

lemma rms_of_zero_iff:
  assumes "float32_array xs"
  shows "rms_of xs = 0 \<longleftrightarrow> (\<forall>x \<in> set xs. x = 0)"
proof
  assume "rms_of xs = 0"
  then show "\<forall>x \<in> set xs. x = 0" using rms_of_pos [OF assms] by fastforce
next
  assume "\<forall>x \<in> set xs. x = 0"
  then show "rms_of xs = 0" by (rule rms_of_zeros)
qed

lemma rd64_unit_interval:
  assumes "\<bar>x\<bar> \<le> 1"
  shows "\<bar>rd64 x\<bar> \<le> 1"
proof -
  have "rd64 \<bar>x\<bar> \<le> rd64 1" using assms by (rule rd64_mono)
  then show ?thesis by (simp add: rd64_abs)
qed

lemma fround_unit_interval:
  assumes "\<bar>x\<bar> \<le> 1"
  shows "\<bar>fround x\<bar> \<le> 1"
proof -
  have "fround \<bar>x\<bar> \<le> fround 1" using assms by (rule fround_mono)
  then show ?thesis by (simp add: fround_abs)
qed

lemma soft_limit_bound: "\<bar>soft_limit scaleFactor x\<bar> \<le> 1"
proof -
  have "\<bar>tanh y\<bar> \<le> 1" for y :: real
    using tanh_real_lt_1 [of y] tanh_real_gt_neg1 [of y] by (simp add: abs_le_iff)
  then show ?thesis
    by (simp add: soft_limit_def Let_def Math_tanh_def rd64_unit_interval fround_unit_interval)
qed

lemma normalizeAudio_result:
  assumes "never_throws lg" "xs \<noteq> []"
  shows "normalizeAudio lg xs t =
     Inr (if rms_of xs = 0 then xs else map (soft_limit (fdiv t (rms_of xs))) xs)"
  using assms by (simp add: normalizeAudio_def Let_def)

lemma is_float32_half: "is_float32 (1 / 2)"
proof -
  have "fround (1 / 2) = 1 / 2" by code_simp
  then show ?thesis by (simp add: is_float32_def)
qed

lemma exp_ge_pow2: "2 ^ n \<le> exp (real n)"
proof -
  have "(2::real) \<le> exp 1" using exp_ge_add_one_self [of 1] by simp
  then have "(2::real) ^ n \<le> exp 1 ^ n" by (intro power_mono) simp_all
  also have "\<dots> = exp (real n)" by (simp add: exp_of_nat_mult [symmetric])
  finally show ?thesis .
qed

lemma tanh_16_ge: "1 - 1 / 2 ^ 25 \<le> tanh (16 :: real)"
proof -
  let ?t = "exp (- 2 * (16 :: real))"
  have t0: "0 < ?t" by simp
  have "(2::real) ^ 32 \<le> exp (real 32)" by (rule exp_ge_pow2)
  then have e32: "(2::real) ^ 32 \<le> exp 32" by simp
  have "?t = 1 / exp 32" by (simp add: exp_minus inverse_eq_divide)
  also have "\<dots> \<le> 1 / 2 ^ 32" using e32 by (intro divide_left_mono) simp_all
  finally have t32: "?t \<le> 1 / 2 ^ 32" .
  have "(1 - 2 * ?t) * (1 + ?t) \<le> 1 - ?t"
  proof -
    have "(1 - 2 * ?t) * (1 + ?t) = 1 - ?t - 2 * ?t * ?t" by (simp add: algebra_simps)
    moreover have "0 \<le> 2 * ?t * ?t" by simp
    ultimately show ?thesis by linarith
  qed
  moreover have "0 < 1 + ?t" using t0 by linarith
  ultimately have "1 - 2 * ?t \<le> (1 - ?t) / (1 + ?t)" by (simp only: pos_le_divide_eq)
  then have "1 - 2 * ?t \<le> tanh 16" by (simp add: tanh_real_altdef)
  moreover have "1 - 1 / 2 ^ 25 \<le> 1 - 2 * ?t" using t32 by simp
  ultimately show ?thesis by linarith
qed

lemma fround_saturates:
  assumes "1 - 1 / 2 ^ 25 \<le> z" "z \<le> 1"
  shows "fround z = 1"
proof -
  have c: "fround (1 - 1 / 2 ^ 25) = 1" by code_simp
  have "fround (1 - 1 / 2 ^ 25) \<le> fround z" using assms(1) by (rule fround_mono)
  moreover have "fround z \<le> fround 1" using assms(2) by (rule fround_mono)
  ultimately show ?thesis using c by simp
qed

lemma rd64_near_one: "rd64 (1 - 1 / 2 ^ 25) = 1 - 1 / 2 ^ 25"
  by code_simp

lemma Math_tanh_saturates:
  assumes "16 \<le> y"
  shows "1 - 1 / 2 ^ 25 \<le> Math_tanh y \<and> Math_tanh y \<le> 1"
proof -
  have "tanh 16 \<le> tanh y" using assms by simp
  then have "1 - 1 / 2 ^ 25 \<le> tanh y" using tanh_16_ge by linarith
  then have "rd64 (1 - 1 / 2 ^ 25) \<le> rd64 (tanh y)" by (rule rd64_mono)
  then have a: "1 - 1 / 2 ^ 25 \<le> Math_tanh y" by (simp only: Math_tanh_def rd64_near_one)
  have "tanh y \<le> 1" using tanh_real_lt_1 [of y] by simp
  then have "rd64 (tanh y) \<le> rd64 1" by (rule rd64_mono)
  then show ?thesis using a by (simp add: Math_tanh_def)
qed

lemma fold_squares_zeros: "fold (\<lambda>x s. fadd s (fmul x x)) (replicate n 0) 1 = 1"
  by (induction n) (simp_all add: fadd_def fmul_def del: fold_replicate)

lemma sumSquares_spike: "sumSquares (1 # replicate n 0) = 1"
  using fold_squares_zeros [of n] by (simp add: sumSquares_def fadd_def fmul_def del: fold_replicate)

lemma rms_of_spike: "rms_of (1 # replicate 65535 0) = 1 / 256"
proof -
  have d: "rd64 (1 / 65536) = 1 / 65536" by code_simp
  have "sqrt (1 / 65536) = sqrt ((1 / 256)\<^sup>2)" by (simp add: power2_eq_square)
  also have "\<dots> = 1 / 256" by (simp only: real_sqrt_abs)
  finally have s: "sqrt (1 / 65536) = 1 / 256" .
  have r: "rd64 (1 / 256) = 1 / 256" by code_simp
  show ?thesis
    by (simp add: rms_of_def sumSquares_spike fdiv_def Math_sqrt_def d s r)
qed

lemma default_targetRMS_ge: "1 / 8 \<le> default_targetRMS"
proof -
  have "rd64 (1 / 8) \<le> rd64 (15 / 100)" by (rule rd64_mono) simp
  moreover have "rd64 (1 / 8) = 1 / 8" by code_simp
  ultimately show ?thesis by (simp add: default_targetRMS_def)
qed

lemma default_targetRMS_le: "default_targetRMS \<le> 1"
proof -
  have "rd64 (15 / 100) \<le> rd64 1" by (rule rd64_mono) simp
  then show ?thesis by (simp add: default_targetRMS_def)
qed

lemma limiter_prescale_ge: "1 / 2 \<le> limiter_prescale"
proof -
  have "rd64 (1 / 2) \<le> rd64 (9 / 10)" by (rule rd64_mono) simp
  moreover have "rd64 (1 / 2) = 1 / 2" by code_simp
  ultimately show ?thesis by (simp add: limiter_prescale_def)
qed

lemma spike_scale_ge: "32 \<le> fdiv default_targetRMS (1 / 256)"
proof -
  have "32 \<le> default_targetRMS / (1 / 256)" using default_targetRMS_ge by simp
  then have "rd64 32 \<le> rd64 (default_targetRMS / (1 / 256))" by (rule rd64_mono)
  moreover have "rd64 32 = 32" using rd64_nat [of 32] by simp
  ultimately show ?thesis by (simp add: fdiv_def)
qed

lemma soft_limit_saturates:
  assumes "32 \<le> s"
  shows "soft_limit s 1 = 1"
proof -
  have r32: "rd64 32 = 32" using rd64_nat [of 32] by simp
  have r16: "rd64 16 = 16" using rd64_nat [of 16] by simp
  have "rd64 32 \<le> rd64 (1 * s)" using assms by (intro rd64_mono) simp
  then have a: "32 \<le> fmul 1 s" by (simp add: fmul_def r32)
  have "32 * (1 / 2) \<le> fmul 1 s * limiter_prescale"
    using a limiter_prescale_ge by (intro mult_mono) simp_all
  then have "16 \<le> fmul 1 s * limiter_prescale" by simp
  then have "rd64 16 \<le> rd64 (fmul 1 s * limiter_prescale)" by (rule rd64_mono)
  then have "16 \<le> fmul (fmul 1 s) limiter_prescale" by (simp add: fmul_def r16)
  then have "1 - 1 / 2 ^ 25 \<le> Math_tanh (fmul (fmul 1 s) limiter_prescale)
      \<and> Math_tanh (fmul (fmul 1 s) limiter_prescale) \<le> 1"
    by (rule Math_tanh_saturates)
  then have "fround (Math_tanh (fmul (fmul 1 s) limiter_prescale)) = 1"
    by (intro fround_saturates) simp_all
  then show ?thesis by (simp add: soft_limit_def Let_def)
qed

lemma soft_limit_0 [simp]: "soft_limit s 0 = 0"
  by (simp add: soft_limit_def Let_def fmul_def Math_tanh_def)

section \<open>Lemmas on the sample-rate converter\<close>

lemma upsample_ratio_nonneg:
  assumes "0 < inputSampleRate" "0 \<le> outputSampleRate"
  shows "0 \<le> upsample_ratio inputSampleRate outputSampleRate"
  unfolding upsample_ratio_def fdiv_def using assms by (intro rd64_nonneg) simp

lemma outputLength_nonneg:
  assumes "0 \<le> ratio"
  shows "0 \<le> outputLength n ratio"
proof -
  have "0 \<le> fmul (real n) ratio" unfolding fmul_def using assms by (intro rd64_nonneg) simp
  then show ?thesis by (simp add: outputLength_def Math_floor_def)
qed

lemma upsampleAudio_result:
  assumes "never_throws lg" "xs \<noteq> []" "0 < inputSampleRate" "0 \<le> outputSampleRate"
  shows "upsampleAudio lg xs inputSampleRate outputSampleRate =
     Inr (map (interpolate xs (upsample_ratio inputSampleRate outputSampleRate))
            [0 ..< nat (outputLength (length xs)
                          (upsample_ratio inputSampleRate outputSampleRate))])"
proof -
  have "0 \<le> outputLength (length xs) (upsample_ratio inputSampleRate outputSampleRate)"
    using assms(3,4) by (intro outputLength_nonneg upsample_ratio_nonneg)
  then show ?thesis using assms by (simp add: upsampleAudio_def Let_def)
qed

lemma upsampleAudio_length:
  assumes "never_throws lg" "xs \<noteq> []" "0 < inputSampleRate" "0 \<le> outputSampleRate"
  shows "map_sum id length (upsampleAudio lg xs inputSampleRate outputSampleRate) =
     Inr (nat (outputLength (length xs) (upsample_ratio inputSampleRate outputSampleRate)))"
  using assms by (simp add: upsampleAudio_result)

lemma upsample_ratio_same: "r \<noteq> 0 \<Longrightarrow> upsample_ratio r r = 1"
  by (simp add: upsample_ratio_def fdiv_def)

lemma outputLength_ratio_1: "n \<le> 2 ^ 53 \<Longrightarrow> outputLength n 1 = int n"
  by (simp add: outputLength_def fmul_def Math_floor_def rd64_nat)

lemma sourceIndex_ratio_1: "i \<le> 2 ^ 53 \<Longrightarrow> sourceIndex 1 i = real i"
  by (simp add: sourceIndex_def fdiv_def rd64_nat)

lemma fraction_ratio_1: "i \<le> 2 ^ 53 \<Longrightarrow> fraction_of 1 i = 0"
  by (simp add: fraction_of_def sourceIndex_ratio_1 Math_floor_def fsub_def)

lemma catmull_rom_at_0:
  assumes "rd64 y1 = y1"
  shows "catmull_rom y0 y1 y2 y3 0 = y1"
  using assms by (simp add: catmull_rom_def Let_def fmul_def fadd_def)

lemma interpolate_ratio_1:
  assumes "i < length xs" "length xs \<le> 2 ^ 53" "is_float32 (xs ! i)"
  shows "interpolate xs 1 i = xs ! i"
proof -
  have i53: "i \<le> 2 ^ 53" using assms(1,2) by linarith
  have y1: "sample_or_0 xs (int i) = xs ! i" using assms(1) by (simp add: sample_or_0_def)
  have d: "rd64 (xs ! i) = xs ! i" using assms(3) by (rule float32_is_double)
  have f: "fround (xs ! i) = xs ! i" using assms(3) by (simp add: is_float32_def)
  have si: "sourceIndex 1 i = real i" using i53 by (rule sourceIndex_ratio_1)
  have fr: "fraction_of 1 i = 0" using i53 by (rule fraction_ratio_1)
  show ?thesis
    by (simp add: interpolate_def Let_def si fr Math_floor_def y1 catmull_rom_at_0 d f)
qed

lemma is_float32_quarter: "is_float32 (- (1 / 4))"
proof -
  have "fround (- (1 / 4)) = - (1 / 4)" by code_simp
  then show ?thesis by (simp add: is_float32_def)
qed

lemma rd64_even_nat:
  assumes "n \<le> 2 ^ 53"
  shows "rd64 (2 * real n) = 2 * real n"
proof (cases "n = 0")
  case True
  then show ?thesis by simp
next
  case False
  have "real n \<le> real (2 ^ 53)" using assms by (simp only: of_nat_le_iff)
  then have "2 * real n \<le> 2 ^ 54" by simp
  moreover have "(2::real) ^ 54 < pow2 1024" using pow2_less_iff [of 54 1024] by (simp add: pow2_def)
  ultimately have lt: "2 * real n < pow2 1024" by linarith
  show ?thesis
  proof (cases "n = 2 ^ 53")
    case True
    have "rd64 (pow2 54) = pow2 54" by (rule rd64_pow2) simp_all
    then show ?thesis using True by (simp add: pow2_def)
  next
    case False
    then have "n < 2 ^ 53" using assms by simp
    then have "int n < 2 ^ 53" by (metis of_nat_less_iff of_nat_numeral of_nat_power)
    then show ?thesis using \<open>n \<noteq> 0\<close> lt
      by (intro rd64_dyadic [where m = "int n" and q = 1]) simp_all
  qed
qed

lemma outputLength_ge:
  assumes "n \<le> 2 ^ 53" "1 \<le> ratio"
  shows "int n \<le> outputLength n ratio"
proof -
  have "real n * 1 \<le> real n * ratio" using assms(2) by (intro mult_left_mono) simp_all
  then have "rd64 (real n) \<le> rd64 (real n * ratio)" by (intro rd64_mono) simp
  then have "real n \<le> fmul (real n) ratio" using assms(1) by (simp add: fmul_def rd64_nat)
  then show ?thesis by (simp add: outputLength_def Math_floor_def le_floor_iff)
qed

lemma outputLength_ge_double:
  assumes "n \<le> 2 ^ 53" "2 \<le> ratio"
  shows "2 * int n \<le> outputLength n ratio"
proof -
  have "real n * 2 \<le> real n * ratio" using assms(2) by (intro mult_left_mono) simp_all
  then have "rd64 (2 * real n) \<le> rd64 (real n * ratio)" by (intro rd64_mono) simp
  then have "2 * real n \<le> fmul (real n) ratio"
    using assms(1) by (simp add: fmul_def rd64_even_nat)
  then have "real_of_int (2 * int n) \<le> fmul (real n) ratio" by simp
  then show ?thesis by (simp only: outputLength_def Math_floor_def le_floor_iff)
qed

lemma rd64_2 [simp]: "rd64 2 = 2"
  using rd64_nat [of 2] by simp

lemma rd64_rel_err:
  assumes "1 / 2 ^ 1022 \<le> \<bar>x\<bar>"
  shows "\<bar>rd64 x - x\<bar> \<le> \<bar>x\<bar> * (1 / 2 ^ 53)"
proof -
  have "pow2 (- int 1022) \<le> \<bar>x\<bar>" using assms by (simp add: pow2_def)
  then have "\<bar>round_to 52 1023 1022 x - x\<bar> \<le> \<bar>x\<bar> * pow2 (- int 52 - 1)"
    by (rule round_to_rel_err)
  then show ?thesis by (simp add: rd64_def pow2_def)
qed

lemma tiny_le: "(1::real) / 2 ^ 1022 \<le> 1 / 2 ^ 54"
  by (intro divide_left_mono power_increasing) simp_all

text \<open>
  The product \<open>n * (outHz / inHz)\<close> computed with two roundings stays within \<open>3 / (4 * inHz)\<close>
  of the exact quotient \<open>n * outHz / inHz\<close>, as long as \<open>n * outHz\<close> is at most \<open>2 ^ 51\<close>.
\<close>

lemma product_error:
  assumes n: "0 < n" and inHz: "0 < inHz" "inHz \<le> 2 ^ 53" and outHz: "0 < outHz" and N: "n * outHz \<le> 2 ^ 51"
  shows "\<bar>fmul (real n) (upsample_ratio (real inHz) (real outHz)) - real (n * outHz) / real inHz\<bar>
           \<le> 3 / (4 * real inHz)"
proof -
  define q where "q = real outHz / real inHz"
  define r where "r = rd64 q"
  define A where "A = real (n * outHz) / real inHz"
  define B where "B = A * (1 / 2 ^ 53)"
  define p where "p = rd64 (real n * r)"
  have i0: "0 < real inHz" using inHz(1) by simp
  have n1: "1 \<le> real n" using n by simp
  have q0: "0 < q" using outHz inHz(1) by (simp add: q_def)
  have A0: "0 \<le> A" by (simp add: A_def)
  have nq: "real n * q = A" by (simp add: q_def A_def)
  have "real inHz \<le> real (2 ^ 53)" using inHz(2) by (simp only: of_nat_le_iff)
  then have i53: "real inHz \<le> 2 ^ 53" by simp
  have "1 \<le> real outHz" using outHz by simp
  then have "1 / 2 ^ 53 \<le> real outHz / real inHz"
    using i0 i53 by (intro frac_le) simp_all
  then have q53: "1 / 2 ^ 53 \<le> q" by (simp add: q_def)
  have "(1::real) / 2 ^ 1022 \<le> 1 / 2 ^ 53"
    by (intro divide_left_mono power_increasing) simp_all
  then have "1 / 2 ^ 1022 \<le> \<bar>q\<bar>" using q53 by linarith
  then have "\<bar>r - q\<bar> \<le> \<bar>q\<bar> * (1 / 2 ^ 53)" unfolding r_def by (rule rd64_rel_err)
  then have E1: "\<bar>r - q\<bar> \<le> q * (1 / 2 ^ 53)" using q0 by simp
  have "q * (1 / 2 ^ 53) \<le> q * (1 / 2)" using q0 by (intro mult_left_mono) simp_all
  moreover have "- (r - q) \<le> \<bar>r - q\<bar>" by (rule abs_ge_minus_self)
  ultimately have rhalf: "q / 2 \<le> r" using E1 by linarith
  then have r0: "0 < r" using q0 by linarith
  have "1 / 2 ^ 54 \<le> q / 2" using q53 by simp
  then have "1 / 2 ^ 54 \<le> r" using rhalf by linarith
  moreover have "r = 1 * r" by simp
  moreover have "1 * r \<le> real n * r" using n1 r0 by (intro mult_right_mono) simp_all
  ultimately have "1 / 2 ^ 54 \<le> real n * r" by linarith
  then have "1 / 2 ^ 1022 \<le> \<bar>real n * r\<bar>" using tiny_le by linarith
  then have "\<bar>p - real n * r\<bar> \<le> \<bar>real n * r\<bar> * (1 / 2 ^ 53)"
    unfolding p_def by (rule rd64_rel_err)
  moreover have "0 \<le> real n * r" using r0 by simp
  ultimately have E2: "\<bar>p - real n * r\<bar> \<le> real n * r * (1 / 2 ^ 53)" by simp
  have "\<bar>real n * r - real n * q\<bar> = real n * \<bar>r - q\<bar>"
    by (simp add: abs_mult right_diff_distrib [symmetric])
  also have "\<dots> \<le> real n * (q * (1 / 2 ^ 53))" using E1 by (intro mult_left_mono) simp_all
  also have "\<dots> = B" using nq by (simp add: B_def)
  finally have E3: "\<bar>real n * r - A\<bar> \<le> B" using nq by simp
  then have nr: "real n * r \<le> A + B" by (simp add: abs_le_iff)
  have B0: "0 \<le> B" using A0 by (simp add: B_def)
  have "real n * r * (1 / 2 ^ 53) \<le> (A + B) * (1 / 2 ^ 53)"
    using nr by (intro mult_right_mono) simp_all
  also have "\<dots> = B + B * (1 / 2 ^ 53)" by (simp add: B_def algebra_simps)
  also have "\<dots> \<le> B + B * 1" using B0 by (intro add_left_mono mult_left_mono) simp_all
  finally have E4: "\<bar>p - real n * r\<bar> \<le> 2 * B" using E2 by simp
  have "\<bar>p - A\<bar> \<le> \<bar>p - real n * r\<bar> + \<bar>real n * r - A\<bar>" by simp
  then have E5: "\<bar>p - A\<bar> \<le> 3 * B" using E3 E4 by linarith
  have "real (n * outHz) \<le> real (2 ^ 51)" using N by (simp only: of_nat_le_iff)
  then have "real (n * outHz) \<le> 2 ^ 51" by simp
  then have "real (n * outHz) * (1 / 2 ^ 53) \<le> 2 ^ 51 * (1 / 2 ^ 53)"
    by (intro mult_right_mono) simp_all
  then have "real (n * outHz) * (1 / 2 ^ 53) \<le> 1 / 4" by simp
  then have "real (n * outHz) * (1 / 2 ^ 53) / real inHz \<le> (1 / 4) / real inHz"
    using i0 by (intro divide_right_mono) simp_all
  then have "B \<le> 1 / (4 * real inHz)" by (simp add: B_def A_def)
  then have "3 * B \<le> 3 / (4 * real inHz)" by simp
  then have "\<bar>p - A\<bar> \<le> 3 / (4 * real inHz)" using E5 by linarith
  then show ?thesis by (simp add: p_def r_def q_def A_def fmul_def upsample_ratio_def fdiv_def)
qed

lemma quotient_bracket:
  assumes "0 < inHz"
  shows "real (N div inHz) \<le> real N / real inHz \<and> real N / real inHz \<le> real (N div inHz) + 1 - 1 / real inHz"
proof -
  have i0: "0 < real inHz" using assms by simp
  have "real (N div inHz * inHz + N mod inHz) = real N" by (simp only: div_mult_mod_eq)
  then have eq: "real N = real (N div inHz) * real inHz + real (N mod inHz)"
    by (simp only: of_nat_add of_nat_mult)
  have "N mod inHz < inHz" using assms by simp
  then have "N mod inHz + 1 \<le> inHz" by simp
  then have "real (N mod inHz + 1) \<le> real inHz" by (simp only: of_nat_le_iff)
  then have m: "real (N mod inHz) \<le> real inHz - 1" by simp
  have "real N / real inHz = real (N div inHz) + real (N mod inHz) / real inHz"
    using eq i0 by (simp add: field_simps)
  moreover have "real (N mod inHz) / real inHz \<le> (real inHz - 1) / real inHz"
    using m i0 by (intro divide_right_mono) simp_all
  moreover have "(real inHz - 1) / real inHz = 1 - 1 / real inHz" using i0 by (simp add: field_simps)
  moreover have "0 \<le> real (N mod inHz) / real inHz" by simp
  ultimately show ?thesis by linarith
qed

lemma outputLength_bounds:
  assumes n: "0 < n" and inHz: "0 < inHz" "inHz \<le> 2 ^ 53" and outHz: "0 < outHz" and N: "n * outHz \<le> 2 ^ 51"
  shows "int (n * outHz div inHz) - 1 \<le> outputLength n (upsample_ratio (real inHz) (real outHz)) \<and>
         outputLength n (upsample_ratio (real inHz) (real outHz)) \<le> int (n * outHz div inHz)"
proof -
  let ?p = "fmul (real n) (upsample_ratio (real inHz) (real outHz))"
  let ?F = "n * outHz div inHz"
  have i0: "0 < real inHz" using inHz(1) by simp
  have err: "\<bar>?p - real (n * outHz) / real inHz\<bar> \<le> 3 / (4 * real inHz)"
    using assms by (rule product_error)
  have br: "real ?F \<le> real (n * outHz) / real inHz \<and>
      real (n * outHz) / real inHz \<le> real ?F + 1 - 1 / real inHz"
    using inHz(1) by (rule quotient_bracket)
  have hi: "?p - real (n * outHz) / real inHz \<le> \<bar>?p - real (n * outHz) / real inHz\<bar>"
    by (rule abs_ge_self)
  have lo: "- (?p - real (n * outHz) / real inHz) \<le> \<bar>?p - real (n * outHz) / real inHz\<bar>"
    by (rule abs_ge_minus_self)
  have "3 / (4 * real inHz) < 1 / real inHz" using i0 by (simp add: field_simps)
  then have "?p < real ?F + 1" using err br hi by linarith
  then have "?p < real_of_int (int ?F + 1)" by simp
  then have "\<lfloor>?p\<rfloor> < int ?F + 1" by (simp only: floor_less_iff)
  then have up: "\<lfloor>?p\<rfloor> \<le> int ?F" by simp
  have "1 \<le> real inHz" using inHz(1) by simp
  then have "3 / (4 * real inHz) \<le> 3 / 4" by (simp add: field_simps)
  then have "real ?F - 1 \<le> ?p" using err br lo by linarith
  then have "real_of_int (int ?F - 1) \<le> ?p" by simp
  then have "int ?F - 1 \<le> \<lfloor>?p\<rfloor>" by (simp only: le_floor_iff)
  then show ?thesis using up by (simp add: outputLength_def Math_floor_def)
qed

lemma outputLength_exact:
  assumes "0 < inHz" "inHz dvd outHz" "n * outHz \<le> 2 ^ 51" "0 < n"
  shows "outputLength n (upsample_ratio (real inHz) (real outHz)) = int (n * outHz div inHz)"
proof -
  obtain k where k: "outHz = inHz * k" using assms(2) by (auto simp: dvd_def)
  have q: "real outHz / real inHz = real k" using assms(1) k by simp
  have "0 < n * inHz" using assms(1,4) by simp
  then have "1 \<le> n * inHz" by simp
  then have "1 * k \<le> n * inHz * k" by (rule mult_le_mono1)
  then have "k \<le> n * outHz" using k by (simp add: mult.assoc)
  then have "k \<le> 2 ^ 51" using assms(3) by (rule order_trans)
  moreover have "(2::nat) ^ 51 \<le> 2 ^ 53" by simp
  ultimately have k53: "k \<le> 2 ^ 53" by linarith
  have "1 \<le> inHz" using assms(1) by simp
  then have "1 * (n * k) \<le> inHz * (n * k)" by (rule mult_le_mono1)
  then have "n * k \<le> n * outHz" using k by (simp add: ac_simps)
  then have "n * k \<le> 2 ^ 51" using assms(3) by (rule order_trans)
  then have nk53: "n * k \<le> 2 ^ 53" by simp
  have "rd64 (real (n * k)) = real (n * k)" using nk53 by (rule rd64_nat)
  then have "rd64 (real n * real k) = real (n * k)" by simp
  then have "fmul (real n) (upsample_ratio (real inHz) (real outHz)) = real (n * k)"
    using k53 by (simp add: fmul_def upsample_ratio_def fdiv_def q rd64_nat)
  then have "\<lfloor>fmul (real n) (upsample_ratio (real inHz) (real outHz))\<rfloor> = int (n * k)"
    by (simp only: floor_of_nat)
  moreover have "n * outHz div inHz = n * k" using assms(1) k by simp
  ultimately show ?thesis by (simp only: outputLength_def Math_floor_def)
qed

section \<open>Lemmas on the byte view and the header\<close>

lemma bytes32_join:
  fixes w :: "32 word"
  shows "(ucast (ucast w :: byte) :: 32 word)
        OR push_bit 8 (ucast (ucast (drop_bit 8 w) :: byte))
        OR push_bit 16 (ucast (ucast (drop_bit 16 w) :: byte))
        OR push_bit 24 (ucast (ucast (drop_bit 24 w) :: byte)) = w"
proof (rule bit_word_eqI)
  fix n assume "n < LENGTH(32)"
  then have n: "n < 32" by simp
  consider "n < 8" | "8 \<le> n" "n < 16" | "16 \<le> n" "n < 24" | "24 \<le> n" by linarith
  then show "bit ((ucast (ucast w :: byte) :: 32 word)
        OR push_bit 8 (ucast (ucast (drop_bit 8 w) :: byte))
        OR push_bit 16 (ucast (ucast (drop_bit 16 w) :: byte))
        OR push_bit 24 (ucast (ucast (drop_bit 24 w) :: byte))) n = bit w n"
  proof cases
    case 1
    then show ?thesis using n by (auto simp: bit_simps)
  next
    case 2
    then show ?thesis using n by (auto simp: bit_simps)
  next
    case 3
    then show ?thesis using n by (auto simp: bit_simps)
  next
    case 4
    then show ?thesis using n by (auto simp: bit_simps)
  qed
qed

lemma bytes16_join:
  fixes w :: "16 word"
  shows "(ucast (ucast w :: byte) :: 16 word)
        OR push_bit 8 (ucast (ucast (drop_bit 8 w) :: byte)) = w"
proof (rule bit_word_eqI)
  fix n assume "n < LENGTH(16)"
  then have n: "n < 16" by simp
  consider "n < 8" | "8 \<le> n" by linarith
  then show "bit ((ucast (ucast w :: byte) :: 16 word)
        OR push_bit 8 (ucast (ucast (drop_bit 8 w) :: byte))) n = bit w n"
  proof cases
    case 1
    then show ?thesis using n by (auto simp: bit_simps)
  next
    case 2
    then show ?thesis using n by (auto simp: bit_simps)
  qed
qed

lemma getUint32_setUint32:
  assumes "offset + 3 < length view"
  shows "getUint32 (setUint32 view offset w) offset = w"
  using assms by (simp add: getUint32_def setUint32_def bytes32_join)

lemma getUint16_setUint16:
  assumes "offset + 1 < length view"
  shows "getUint16 (setUint16 view offset w) offset = w"
  using assms by (simp add: getUint16_def setUint16_def bytes16_join)

lemma length_setUint8 [simp]: "length (setUint8 view offset b) = length view"
  by (simp add: setUint8_def)

lemma length_setUint16 [simp]: "length (setUint16 view offset w) = length view"
  by (simp add: setUint16_def)

lemma length_setUint32 [simp]: "length (setUint32 view offset w) = length view"
  by (simp add: setUint32_def)

lemma length_setInt16 [simp]: "length (setInt16 view offset v) = length view"
  by (simp add: setInt16_def)

lemma length_writeString [simp]: "length (writeString view offset s) = length view"
  by (induction s arbitrary: view offset) simp_all

lemma length_writeHeader [simp]: "length (writeHeader view len) = length view"
  by (simp add: writeHeader_def Let_def)

lemma length_writeSamples [simp]: "length (writeSamples rng view offset i xs) = length view"
  by (induction xs arbitrary: view offset i) simp_all

lemma writeSamples_below:
  assumes "k < offset"
  shows "writeSamples rng view offset i xs ! k = view ! k"
  using assms
proof (induction xs arbitrary: view offset i)
  case Nil
  then show ?case by simp
next
  case (Cons x xs)
  have "writeSamples rng (setInt16 view offset (quantize (rng i) x)) (offset + 2) (Suc i) xs ! k
      = setInt16 view offset (quantize (rng i) x) ! k"
    using Cons.prems by (intro Cons.IH) simp
  also have "\<dots> = view ! k" using Cons.prems by (simp add: setInt16_def setUint16_def)
  finally show ?case by simp
qed

lemma char_of_codes:
  "char_of (82 :: nat) = CHR ''R''" "char_of (73 :: nat) = CHR ''I''"
  "char_of (70 :: nat) = CHR ''F''" "char_of (87 :: nat) = CHR ''W''"
  "char_of (65 :: nat) = CHR ''A''" "char_of (86 :: nat) = CHR ''V''"
  "char_of (69 :: nat) = CHR ''E''"
  by code_simp+

lemmas header_unfold = writeHeader_def Let_def setUint32_def setUint16_def setUint8_def
  getUint32_def getUint16_def getUint8_def readMarker_def

lemma header_riff:
  "readMarker (writeHeader (replicate (44 + len * 2) 0) len) 0 = ''RIFF''"
  by (simp add: header_unfold char_of_codes numeral_2_eq_2 [symmetric])

lemma header_wave:
  "readMarker (writeHeader (replicate (44 + len * 2) 0) len) 8 = ''WAVE''"
  by (simp add: header_unfold char_of_codes)

lemma header_fileSize:
  "getUint32 (writeHeader (replicate (44 + len * 2) 0) len) 4 = of_nat (36 + len * 2)"
  by (simp add: header_unfold bytes32_join)

lemma header_dataSize:
  "getUint32 (writeHeader (replicate (44 + len * 2) 0) len) 40 = of_nat (len * 2)"
  by (simp add: header_unfold bytes32_join)

lemma header_numChannels:
  "getUint16 (writeHeader (replicate (44 + len * 2) 0) len) 22 = 1"
  by (simp add: header_unfold)

lemma header_sampleRate:
  "getUint32 (writeHeader (replicate (44 + len * 2) 0) len) 24 = 48000"
  by (simp add: header_unfold bytes32_join processedSampleRate_def)

lemma header_byteRate:
  "getUint32 (writeHeader (replicate (44 + len * 2) 0) len) 28 = 96000"
  by (simp add: header_unfold bytes32_join processedSampleRate_def)

lemma header_blockAlign:
  "getUint16 (writeHeader (replicate (44 + len * 2) 0) len) 32 = 2"
  by (simp add: header_unfold bytes16_join)

lemma header_bitsPerSample:
  "getUint16 (writeHeader (replicate (44 + len * 2) 0) len) 34 = 16"
  by (simp add: header_unfold bytes16_join)

lemma header_accepted:
  "\<not> header_rejected (headerValidation (writeHeader (replicate (44 + len * 2) 0) len))"
  by (simp add: header_rejected_def headerValidation_def header_riff header_wave)

lemma getUint32_writeSamples:
  assumes "k + 3 < offset"
  shows "getUint32 (writeSamples rng view offset i xs) k = getUint32 view k"
  using assms by (simp add: getUint32_def writeSamples_below)

lemma getUint16_writeSamples:
  assumes "k + 1 < offset"
  shows "getUint16 (writeSamples rng view offset i xs) k = getUint16 view k"
  using assms by (simp add: getUint16_def writeSamples_below)

lemma encodeWav_result:
  assumes "never_throws lg"
  shows "encodeWav lg rng ups =
     Inr \<lparr> blob_bytes = writeSamples rng
               (writeHeader (replicate (44 + length ups * 2) 0) (length ups)) 44 0 ups,
           blob_type = ''audio/wav'' \<rparr>"
  using assms by (simp add: encodeWav_def Let_def header_accepted)

lemma normalizeAudio_length:
  assumes "never_throws lg" "xs \<noteq> []"
  obtains ys where "normalizeAudio lg xs t = Inr ys" "length ys = length xs"
  using assms by (simp add: normalizeAudio_result)

lemma processedAudio_result:
  assumes "never_throws lg" "xs \<noteq> []" "0 < sr"
  obtains ups where "processedAudio lg xs sr = Inr ups"
    "int (length ups) = outputLength (length xs) (upsample_ratio sr 48000)"
proof -
  obtain ys where ys: "normalizeAudio lg xs default_targetRMS = Inr ys" "length ys = length xs"
    using assms(1,2) by (rule normalizeAudio_length)
  have ne: "ys \<noteq> []" using ys(2) assms(2) by auto
  let ?len = "outputLength (length ys) (upsample_ratio sr 48000)"
  have up: "upsampleAudio lg ys sr 48000 =
      Inr (map (interpolate ys (upsample_ratio sr 48000)) [0 ..< nat ?len])"
    using assms(1,3) ne by (intro upsampleAudio_result) simp_all
  have nn: "0 \<le> ?len"
    using assms(3) by (intro outputLength_nonneg upsample_ratio_nonneg) simp_all
  have "processedAudio lg xs sr =
      Inr (map (interpolate ys (upsample_ratio sr 48000)) [0 ..< nat ?len])"
    using ys(1) up by (simp add: processedAudio_def and_then_def processedSampleRate_def)
  moreover have "int (length (map (interpolate ys (upsample_ratio sr 48000)) [0 ..< nat ?len]))
      = outputLength (length xs) (upsample_ratio sr 48000)"
    using nn ys(2) by simp
  ultimately show ?thesis using that by blast
qed

lemma createAudioBlob_result:
  assumes "never_throws lg" "xs \<noteq> []" "0 < sr" "processedAudio lg xs sr = Inr ups"
  shows "createAudioBlob lg rng xs sr =
     Inr \<lparr> blob_bytes = writeSamples rng
               (writeHeader (replicate (44 + length ups * 2) 0) (length ups)) 44 0 ups,
           blob_type = ''audio/wav'' \<rparr>"
  using assms by (simp add: createAudioBlob_def and_then_def encodeWav_result)

lemma blob_fields:
  fixes ups :: "real list" and rng :: "nat \<Rightarrow> 32 word \<times> 32 word"
  defines "b \<equiv> \<lparr> blob_bytes = writeSamples rng
               (writeHeader (replicate (44 + length ups * 2) 0) (length ups)) 44 0 ups,
           blob_type = ''audio/wav'' \<rparr>"
  shows "length (blob_bytes b) = 44 + 2 * length ups"
    and "sample_count b = length ups"
    and "getUint32 (blob_bytes b) 4 = of_nat (36 + length ups * 2)"
    and "getUint32 (blob_bytes b) 40 = of_nat (length ups * 2)"
    and "getUint16 (blob_bytes b) 22 = 1"
    and "getUint16 (blob_bytes b) 32 = 2"
    and "getUint16 (blob_bytes b) 34 = 16"
    and "declared_sample_rate b = 48000"
    and "declared_byte_rate b = 96000"
  by (simp_all add: b_def sample_count_def declared_sample_rate_def declared_byte_rate_def
      getUint32_writeSamples getUint16_writeSamples header_fileSize header_dataSize
      header_numChannels header_blockAlign header_bitsPerSample header_sampleRate
      header_byteRate)

section \<open>Lemmas on the whole pipeline\<close>

lemma upsampleAudio_same_rate:
  assumes "never_throws lg" "float32_array xs" "xs \<noteq> []" "0 < r"
  shows "upsampleAudio lg xs r r = Inr xs"
proof -
  have len: "length xs \<le> 2 ^ 53" and fl: "list_all is_float32 xs"
    using assms(2) by (simp_all add: float32_array_def)
  have ratio: "upsample_ratio r r = 1" using assms(4) by (simp add: upsample_ratio_same)
  have "map (interpolate xs 1) [0 ..< length xs] = xs"
  proof (rule nth_equalityI)
    show "length (map (interpolate xs 1) [0 ..< length xs]) = length xs" by simp
  next
    fix i assume "i < length (map (interpolate xs 1) [0 ..< length xs])"
    then have i: "i < length xs" by simp
    then have "is_float32 (xs ! i)" using fl by (simp add: list_all_length)
    then show "map (interpolate xs 1) [0 ..< length xs] ! i = xs ! i"
      using i len by (simp add: interpolate_ratio_1)
  qed
  then show ?thesis
    using assms(1,3,4) len by (simp add: upsampleAudio_result ratio outputLength_ratio_1)
qed

lemma float32_array_zeros: "n < 2 ^ 53 \<Longrightarrow> float32_array (replicate n 0)"
  by (simp add: float32_array_def is_float32_def list_all_iff)

lemma processedAudio_zeros:
  assumes "0 < n" "n < 2 ^ 53"
  shows "processedAudio silent_logger (replicate n 0) 48000 = Inr (replicate n 0)"
proof -
  have ne: "replicate n (0::real) \<noteq> []" using assms(1) by simp
  have "rms_of (replicate n 0) = 0" by (rule rms_of_zeros) simp
  then have "normalizeAudio silent_logger (replicate n 0) default_targetRMS = Inr (replicate n 0)"
    using ne by (simp add: normalizeAudio_result)
  moreover have "upsampleAudio silent_logger (replicate n 0) 48000 48000 = Inr (replicate n 0)"
    using ne assms(2) by (intro upsampleAudio_same_rate float32_array_zeros) simp_all
  ultimately show ?thesis by (simp add: processedAudio_def and_then_def processedSampleRate_def)
qed

lemma byte_char_iff:
  fixes b :: byte
  shows "char_of (unat b) = c \<longleftrightarrow> b = of_nat (of_char c)"
proof -
  have lt: "unat b < 2 ^ 8" using unsigned_less [of b, where ?'a = nat] by simp
  then have tb: "take_bit 8 (unat b) = unat b" by (simp add: take_bit_nat_eq_self)
  have c256: "(of_char c :: nat) < 256" by simp
  show ?thesis
  proof
    assume "char_of (unat b) = c"
    then have "unat b = of_char c" using tb by (simp add: char_of_eq_iff)
    then have "of_nat (unat b) = (of_nat (of_char c) :: byte)" by simp
    then show "b = of_nat (of_char c)" by simp
  next
    assume "b = of_nat (of_char c)"
    then have "unat b = of_char c mod 2 ^ LENGTH(8)" by (simp only: unat_of_nat)
    then have "unat b = of_char c" using c256 by simp
    then show "char_of (unat b) = c" using tb by (simp add: char_of_eq_iff)
  qed
qed

lemma riff_iff:
  "readMarker view 0 = ''RIFF'' \<longleftrightarrow> map (getUint8 view) [0, 1, 2, 3] = [82, 73, 70, 70]"
  by (simp add: readMarker_def byte_char_iff)

lemma wave_iff:
  "readMarker view 8 = ''WAVE'' \<longleftrightarrow> map (getUint8 view) [8, 9, 10, 11] = [87, 65, 86, 69]"
  by (simp add: readMarker_def byte_char_iff)

lemma validation_throws_simps [simp]:
  "validation_throws l ''audio-utils'' m d = None"
  "validation_throws l ''tts'' m d = None"
  "validateAudioData validation_throws xs stage = Some (LoggerError (''Audio data at '' @ stage))"
  "ttsDebugger_log validation_throws st b = None"
  by (simp_all add: validation_throws_def validateAudioData_def ttsDebugger_log_def)

section \<open>Empty input\<close>

text \<open>
  C6. Given a zero-length signal, each of the three stages ends with an exception and
  returns no output, whatever the logger does; when no logging call throws, the
  exception is the stage's own empty-input error: \<open>Cannot normalize empty audio data\<close>,
  \<open>Cannot upsample empty audio data\<close>, \<open>Cannot create blob from empty audio data\<close>.
\<close>

theorem empty_input_rejected:
  "(\<exists>e. normalizeAudio lg [] targetRMS = Inl e) \<and>
   (\<exists>e. upsampleAudio lg [] inputSampleRate outputSampleRate = Inl e) \<and>
   (\<exists>e. createAudioBlob lg rng [] sampleRate' = Inl e) \<and>
   (never_throws lg \<longrightarrow>
      normalizeAudio lg [] targetRMS = Inl EmptyNormalize \<and>
      upsampleAudio lg [] inputSampleRate outputSampleRate = Inl EmptyUpsample \<and>
      createAudioBlob lg rng [] sampleRate' = Inl EmptyBlob)"
proof (intro conjI impI)
  show "\<exists>e. normalizeAudio lg [] targetRMS = Inl e"
    by (auto simp: normalizeAudio_def after_def split: option.splits)
  show "\<exists>e. upsampleAudio lg [] inputSampleRate outputSampleRate = Inl e"
    by (auto simp: upsampleAudio_def after_def split: option.splits)
  show "\<exists>e. createAudioBlob lg rng [] sampleRate' = Inl e"
    by (auto simp: createAudioBlob_def after_def split: option.splits)
next
  assume q: "never_throws lg"
  show "normalizeAudio lg [] targetRMS = Inl EmptyNormalize"
    using q by (simp add: normalizeAudio_def)
  show "upsampleAudio lg [] inputSampleRate outputSampleRate = Inl EmptyUpsample"
    using q by (simp add: upsampleAudio_def)
  show "createAudioBlob lg rng [] sampleRate' = Inl EmptyBlob"
    using q by (simp add: createAudioBlob_def)
qed

theorem empty_input_rejected_witness:
  "never_throws silent_logger \<and>
   normalizeAudio silent_logger [] default_targetRMS = Inl EmptyNormalize \<and>
   upsampleAudio silent_logger [] 24000 48000 = Inl EmptyUpsample \<and>
   createAudioBlob silent_logger no_dither [] 24000 = Inl EmptyBlob"
  using empty_input_rejected [of silent_logger default_targetRMS 24000 48000 no_dither 24000]
  by simp

section \<open>Silent input\<close>

text \<open>
  C5. For a non-empty \<open>Float32Array\<close> the length that divides the sum of squares is not
  zero; the RMS is zero exactly when every sample is zero; and in that case
  \<open>normalizeAudio\<close> returns the input unchanged (so an all-zero output of the same
  length) without reaching the division by the RMS, whatever the target is.
\<close>

theorem silent_passthrough:
  assumes "never_throws lg" "float32_array xs" "xs \<noteq> []"
  shows "real (length xs) \<noteq> 0 \<and>
         (rms_of xs = 0 \<longleftrightarrow> (\<forall>x \<in> set xs. x = 0)) \<and>
         (rms_of xs = 0 \<longrightarrow> normalizeAudio lg xs targetRMS = Inr xs)"
  using assms by (simp add: rms_of_zero_iff normalizeAudio_result)

theorem silent_passthrough_witness:
  "never_throws silent_logger \<and> float32_array [0, 0, 0] \<and> [0, 0, 0 :: real] \<noteq> [] \<and>
   rms_of [0, 0, 0] = 0 \<and>
   normalizeAudio silent_logger [0, 0, 0] default_targetRMS = Inr [0, 0, 0]"
  using silent_passthrough [of silent_logger "[0, 0, 0]" default_targetRMS]
  by (simp add: float32_array_def is_float32_def)

section \<open>The range of the limiter\<close>

text \<open>
  C1, as amended. For every non-empty \<open>Float32Array\<close> and every target RMS between 0
  and 1 (so that the scale factor is finite), \<open>normalizeAudio\<close> returns an output of the
  same length in which every sample has absolute value at most \<open>1.0\<close>. The bound is
  not strict: \<open>Math.tanh\<close> and the store into the \<open>Float32Array\<close> round, and a large
  scaled sample is stored as exactly \<open>1.0\<close>.
\<close>

theorem normalized_within_unit:
  assumes "never_throws lg" "float32_array xs" "xs \<noteq> []"
    and "0 \<le> targetRMS" "targetRMS \<le> 1"
  shows "\<exists>ys. normalizeAudio lg xs targetRMS = Inr ys \<and> length ys = length xs \<and>
              (\<forall>y \<in> set ys. \<bar>y\<bar> \<le> 1)"
proof (cases "rms_of xs = 0")
  case True
  then have "\<forall>x \<in> set xs. x = 0" using assms(2) by (simp add: rms_of_zero_iff)
  then have "\<forall>x \<in> set xs. \<bar>x\<bar> \<le> 1" by auto
  then show ?thesis using assms(1,3) True by (simp add: normalizeAudio_result)
next
  case False
  then show ?thesis using assms(1,3) by (simp add: normalizeAudio_result soft_limit_bound)
qed

theorem normalized_within_unit_witness:
  "never_throws silent_logger \<and> float32_array [1 / 2] \<and> [1 / 2 :: real] \<noteq> [] \<and>
   0 \<le> default_targetRMS \<and> default_targetRMS \<le> 1 \<and>
   (\<exists>ys. normalizeAudio silent_logger [1 / 2] default_targetRMS = Inr ys \<and> length ys = 1 \<and>
         (\<forall>y \<in> set ys. \<bar>y\<bar> \<le> 1))"
  using normalized_within_unit [of silent_logger "[1 / 2]" default_targetRMS]
    default_targetRMS_ge default_targetRMS_le
  by (simp add: float32_array_def is_float32_half)

text \<open>
  C1 as stated fails. A signal of 65536 samples that is silent but for a full-scale
  first sample has RMS \<open>1 / 256\<close>, so that sample is scaled by more than 32 and the
  limiter stores exactly \<open>1.0\<close>: the output is the input.
\<close>

theorem limiter_reaches_one_counterexample:
  "float32_array (1 # replicate 65535 0) \<and>
   normalizeAudio silent_logger (1 # replicate 65535 0) default_targetRMS
     = Inr (1 # replicate 65535 0) \<and>
   \<not> \<bar>1 :: real\<bar> < 1"
proof -
  have "float32_array (1 # replicate 65535 0)"
    by (simp add: float32_array_def is_float32_def list_all_iff)
  moreover have "normalizeAudio silent_logger (1 # replicate 65535 0) default_targetRMS
      = Inr (map (soft_limit (fdiv default_targetRMS (1 / 256))) (1 # replicate 65535 0))"
    by (simp add: normalizeAudio_result rms_of_spike)
  ultimately show ?thesis using soft_limit_saturates [OF spike_scale_ge] by simp
qed

section \<open>The length of the resampled signal\<close>






lemma interpolate_first:
  assumes "xs \<noteq> []" "is_float32 (xs ! 0)"
  shows "interpolate xs ratio 0 = xs ! 0"
proof -
  have si: "sourceIndex ratio 0 = 0" by (simp add: sourceIndex_def fdiv_def)
  have fr: "fraction_of ratio 0 = 0" by (simp add: fraction_of_def si Math_floor_def fsub_def)
  have y1: "sample_or_0 xs 0 = xs ! 0" using assms(1) by (simp add: sample_or_0_def)
  have d: "rd64 (xs ! 0) = xs ! 0" using assms(2) by (rule float32_is_double)
  have f: "fround (xs ! 0) = xs ! 0" using assms(2) by (simp add: is_float32_def)
  show ?thesis
    by (simp add: interpolate_def Let_def si fr Math_floor_def y1 catmull_rom_at_0 d f)
qed


section \<open>Equal rates\<close>

text \<open>
  C9. For a non-empty \<open>Float32Array\<close> and a positive rate \<open>r\<close>, resampling from \<open>r\<close> to
  \<open>r\<close> has ratio 1, every source index is the output index with fraction zero, and the
  output is the input, sample for sample and of the same length.
\<close>

theorem equal_rates_identity:
  assumes "never_throws lg" "float32_array xs" "xs \<noteq> []" "0 < r"
  shows "upsample_ratio r r = 1 \<and>
         (\<forall>i < length xs. sourceIndex 1 i = real i \<and> fraction_of 1 i = 0) \<and>
         upsampleAudio lg xs r r = Inr xs"
proof -
  have len: "length xs \<le> 2 ^ 53" using assms(2) by (simp add: float32_array_def)
  have "upsample_ratio r r = 1" using assms(4) by (simp add: upsample_ratio_same)
  moreover have "\<forall>i < length xs. sourceIndex 1 i = real i \<and> fraction_of 1 i = 0"
    using len by (simp add: sourceIndex_ratio_1 fraction_ratio_1)
  moreover have "upsampleAudio lg xs r r = Inr xs"
    using assms by (rule upsampleAudio_same_rate)
  ultimately show ?thesis by simp
qed

theorem equal_rates_identity_witness:
  "never_throws silent_logger \<and> float32_array [1 / 2, - (1 / 4), 0] \<and>
   [1 / 2, - (1 / 4), 0 :: real] \<noteq> [] \<and> (0 :: real) < 24000 \<and>
   upsample_ratio 24000 24000 = 1 \<and>
   sourceIndex 1 2 = 2 \<and> fraction_of 1 2 = 0 \<and>
   upsampleAudio silent_logger [1 / 2, - (1 / 4), 0] 24000 24000 = Inr [1 / 2, - (1 / 4), 0]"
proof -
  have "float32_array [1 / 2, - (1 / 4), 0]"
    using is_float32_half is_float32_quarter by (simp add: float32_array_def is_float32_def)
  then show ?thesis
    using equal_rates_identity [of silent_logger "[1 / 2, - (1 / 4), 0]" 24000] by simp
qed

section \<open>The header self-check\<close>

text \<open>
  C2, as amended. After writing the header the encoder reads back the \<open>RIFF\<close>,
  \<open>WAVE\<close> and \<open>fmt\<close> markers and the file size, audio format, channel count, sample
  rate and bits-per-sample fields, and logs them. It throws the header-construction error
  exactly when the bytes at offsets 0 to 3 are not \<open>RIFF\<close> or the bytes at offsets 8 to
  11 are not \<open>WAVE\<close>; nothing else that was read back is compared, and the \<open>data\<close>
  marker is not read back at all. On the header it has just written the check passes, so
  with a logger that does not throw the encoder always produces its container.
\<close>

theorem header_check_scope:
  "(header_rejected (headerValidation view) \<longleftrightarrow>
      \<not> (map (getUint8 view) [0, 1, 2, 3] = [82, 73, 70, 70] \<and>
         map (getUint8 view) [8, 9, 10, 11] = [87, 65, 86, 69])) \<and>
   \<not> header_rejected (headerValidation (writeHeader (replicate (44 + len * 2) 0) len)) \<and>
   (never_throws lg \<longrightarrow> (\<exists>b. encodeWav lg rng ups = Inr b))"
proof (intro conjI impI)
  show "header_rejected (headerValidation view) \<longleftrightarrow>
      \<not> (map (getUint8 view) [0, 1, 2, 3] = [82, 73, 70, 70] \<and>
         map (getUint8 view) [8, 9, 10, 11] = [87, 65, 86, 69])"
    unfolding header_rejected_def headerValidation_def
    by (simp only: header_validation.simps riff_iff wave_iff) auto
  show "\<not> header_rejected (headerValidation (writeHeader (replicate (44 + len * 2) 0) len))"
    by (rule header_accepted)
next
  assume "never_throws lg"
  then show "\<exists>b. encodeWav lg rng ups = Inr b" by (simp add: encodeWav_result)
qed

theorem header_check_scope_witness:
  "\<not> header_rejected (headerValidation (writeHeader (replicate (44 + 3 * 2) 0) 3)) \<and>
   never_throws silent_logger \<and>
   (\<exists>b. encodeWav silent_logger no_dither [0, 0, 0] = Inr b)"
  using header_check_scope [of "[]" 3 silent_logger no_dither "[0, 0, 0]"] by simp

text \<open>
  C2 as stated fails: a header whose \<open>data\<close> marker and bits-per-sample field are
  wrong passes the check.
\<close>

theorem header_check_counterexample:
  "readMarker corrupted_header 36 \<noteq> ''data'' \<and>
   bitsPerSample (headerValidation corrupted_header) \<noteq> 16 \<and>
   \<not> header_rejected (headerValidation corrupted_header)"
proof -
  have l: "length (writeHeader (replicate 44 0) 0) = 44" by simp
  have a: "getUint8 corrupted_header 36 = 0"
    using l by (simp add: corrupted_header_def getUint8_def setUint8_def setUint16_def)
  have "getUint8 corrupted_header 36 \<noteq> of_nat (of_char CHR ''d'')" using a by simp
  then have "char_of (unat (getUint8 corrupted_header 36)) \<noteq> CHR ''d''"
    by (simp only: byte_char_iff not_False_eq_True)
  then have m: "readMarker corrupted_header 36 \<noteq> ''data''" by (simp add: readMarker_def)
  have b: "getUint16 corrupted_header 34 = 0"
    using l getUint16_setUint16 [of 34 "setUint8 (writeHeader (replicate 44 0) 0) 36 0" 0]
    by (simp add: corrupted_header_def)
  have r: "map (getUint8 corrupted_header) [0, 1, 2, 3] = [82, 73, 70, 70]"
    by (simp add: corrupted_header_def header_unfold numeral_2_eq_2 [symmetric])
  have w: "map (getUint8 corrupted_header) [8, 9, 10, 11] = [87, 65, 86, 69]"
    by (simp add: corrupted_header_def header_unfold)
  have "\<not> header_rejected (headerValidation corrupted_header)"
    unfolding header_rejected_def headerValidation_def
    using r w by (simp only: header_validation.simps riff_iff wave_iff) simp
  then show ?thesis using m b by (simp add: headerValidation_def)
qed

section \<open>The layout of the container\<close>




section \<open>The declared rate and the encoded sample count\<close>




section \<open>Failures of the diagnostics\<close>

text \<open>
  C7, as amended. The diagnostics are not guarded. \<open>normalizeAudio\<close> and
  \<open>upsampleAudio\<close> call \<open>validateAudioData\<close> outside any \<open>try\<close>: when recording the
  statistics of the input throws, the stage ends with that exception, for every input;
  and when the processing inside \<open>createAudioBlob\<close> ends with an exception, the \<open>catch\<close>
  clause logs and throws the same exception again. Only when no logging call throws is
  the result of a stage independent of the logger.
\<close>

theorem diagnostics_not_guarded:
  "(lg DEBUG ''audio-utils'' ''Starting RMS normalization'' None = None \<longrightarrow>
      validateAudioData lg xs ''pre-normalization'' = Some e \<longrightarrow>
      normalizeAudio lg xs targetRMS = Inl e) \<and>
   (ttsDebugger_log lg ''upsample-audio-start'' True = None \<longrightarrow>
      validateAudioData lg xs ''pre-upsampling'' = Some e \<longrightarrow>
      upsampleAudio lg xs inputSampleRate outputSampleRate = Inl e) \<and>
   (ttsDebugger_log lg ''createAudioBlob-start'' True = None \<longrightarrow>
      ttsDebugger_log lg ''createAudioBlob'' False = None \<longrightarrow>
      xs \<noteq> [] \<longrightarrow> 0 < sr \<longrightarrow> processedAudio lg xs sr = Inl e \<longrightarrow>
      createAudioBlob lg rng xs sr = Inl e) \<and>
   (never_throws lg \<longrightarrow>
      normalizeAudio lg xs targetRMS = normalizeAudio silent_logger xs targetRMS \<and>
      upsampleAudio lg xs inputSampleRate outputSampleRate =
        upsampleAudio silent_logger xs inputSampleRate outputSampleRate)"
proof (intro conjI impI)
  assume "lg DEBUG ''audio-utils'' ''Starting RMS normalization'' None = None"
    and "validateAudioData lg xs ''pre-normalization'' = Some e"
  then show "normalizeAudio lg xs targetRMS = Inl e" by (simp add: normalizeAudio_def)
next
  assume "ttsDebugger_log lg ''upsample-audio-start'' True = None"
    and "validateAudioData lg xs ''pre-upsampling'' = Some e"
  then show "upsampleAudio lg xs inputSampleRate outputSampleRate = Inl e"
    by (simp add: upsampleAudio_def)
next
  assume "ttsDebugger_log lg ''createAudioBlob-start'' True = None"
    and "ttsDebugger_log lg ''createAudioBlob'' False = None"
    and "xs \<noteq> []" and "0 < sr" and "processedAudio lg xs sr = Inl e"
  then show "createAudioBlob lg rng xs sr = Inl e"
    by (simp add: createAudioBlob_def and_then_def)
next
  assume q: "never_throws lg"
  show "normalizeAudio lg xs targetRMS = normalizeAudio silent_logger xs targetRMS"
    using q by (simp add: normalizeAudio_def Let_def)
  show "upsampleAudio lg xs inputSampleRate outputSampleRate =
        upsampleAudio silent_logger xs inputSampleRate outputSampleRate"
    using q by (simp add: upsampleAudio_def Let_def)
qed

theorem diagnostics_not_guarded_witness:
  "validation_throws DEBUG ''audio-utils'' ''Starting RMS normalization'' None = None \<and>
   validateAudioData validation_throws [1 / 2] ''pre-normalization''
     = Some (LoggerError ''Audio data at pre-normalization'') \<and>
   normalizeAudio validation_throws [1 / 2] default_targetRMS
     = Inl (LoggerError ''Audio data at pre-normalization'') \<and>
   never_throws silent_logger"
  using diagnostics_not_guarded [of validation_throws "[1 / 2]"
      "LoggerError ''Audio data at pre-normalization''" default_targetRMS 24000 48000 24000
      no_dither]
  by simp

text \<open>
  C7 as stated fails: with a logger whose statistics records throw, normalisation of a
  signal that is otherwise returned unchanged ends with the logger's exception; on the
  empty signal the logger's exception takes the place of the empty-input error; and
  upsampling ends with the logger's exception as well.
\<close>

theorem diagnostics_abort_counterexample:
  "normalizeAudio silent_logger [0] default_targetRMS = Inr [0] \<and>
   normalizeAudio validation_throws [0] default_targetRMS
     = Inl (LoggerError ''Audio data at pre-normalization'') \<and>
   normalizeAudio validation_throws [] default_targetRMS
     = Inl (LoggerError ''Audio data at pre-normalization'') \<and>
   upsampleAudio validation_throws [0] 24000 48000
     = Inl (LoggerError ''Audio data at pre-upsampling'')"
proof -
  have "rms_of [0] = 0" by (rule rms_of_zeros) simp
  then have "normalizeAudio silent_logger [0] default_targetRMS = Inr [0]"
    by (simp add: normalizeAudio_result)
  then show ?thesis by (simp add: normalizeAudio_def upsampleAudio_def)
qed

end
